theory Spec2Isabelle
  imports Main
begin

section \<open>TI-99 keyboard to USB: the matrix scanner of tiarduino.ino\<close>

text \<open>
  The sketch talks to the outside world through library calls only: \<open>pinMode\<close>,
  \<open>digitalWrite\<close>, \<open>digitalRead\<close>, \<open>delay\<close>, the USB keyboard
  (\<open>Keyboard.press\<close>, \<open>Keyboard.release\<close>, \<open>Keyboard.releaseAll\<close>) and the
  serial console. The model records every such call, in program order, in a trace that is
  part of the state; the level a \<open>digitalRead\<close> returns is an input of the cycle.
  Levels are booleans: \<open>True\<close> is HIGH, \<open>False\<close> is LOW.
\<close>

subsection \<open>Constants and tables\<close>

type_synonym pin = nat

datatype pinmode = INPUT | INPUT_PULLUP | OUTPUT

definition HIGH :: bool where [simp]: "HIGH = True"
definition LOW :: bool where [simp]: "LOW = False"

definition ROWS :: nat where [simp]: "ROWS = 6"
definition COLS :: nat where [simp]: "COLS = 8"

text \<open>Indexes of the modifier keys on the last row, also used as return values.\<close>

definition SHIFT :: nat where [simp]: "SHIFT = 5"
definition CTRL :: nat where [simp]: "CTRL = 6"
definition FCTN :: nat where [simp]: "FCTN = 7"

definition KBD_DELAY :: nat where [simp]: "KBD_DELAY = 150"
definition RPT_DELAY :: nat where [simp]: "RPT_DELAY = 50"

definition enablePin :: pin where [simp]: "enablePin = 13"
definition alphaLockRowPin :: pin where [simp]: "alphaLockRowPin = 7"

text \<open>
  The analog pin names are constants of the board's pin table, which is not part of the
  sketch; on the Arduino Micro that the sketch is written for they are the digital pins
  18 to 21.
\<close>

definition A0 :: pin where [simp]: "A0 = 18"
definition A1 :: pin where [simp]: "A1 = 19"
definition A2 :: pin where [simp]: "A2 = 20"
definition A3 :: pin where [simp]: "A3 = 21"

text \<open>
  The character table, row by row. The last row holds \<open>=\<close>, space and newline; its
  other five entries are the character \<open>\0\<close>.
\<close>

definition keys :: "char list list" where
  "keys = [ ''/;p0zaq1'',
            ''.lo9xsw2'',
            '',ki8cde3'',
            ''mju7vfr4'',
            ''nhy6bgt5'',
            [CHR ''='', CHR '' '', CHR 0x0A, CHR 0x00, CHR 0x00, CHR 0x00, CHR 0x00, CHR 0x00] ]"

definition columns :: "nat list" where
  "columns = [8, 8, 8, 8, 8, 3]"

definition rowPins :: "pin list" where
  "rowPins = [9, A1, A2, A3, 10, A0]"

definition colPins :: "pin list" where
  "colPins = [6, 5, 2, 3, 12, 4, 11, 8]"

subsection \<open>Library calls and the state of the sketch\<close>

text \<open>
  The key codes \<open>KEY_CAPS_LOCK\<close>, \<open>KEY_LEFT_SHIFT\<close>, \<open>KEY_LEFT_CTRL\<close> and
  \<open>KEY_LEFT_ALT\<close> are constants of the keyboard library; they are kept symbolic.
  \<open>Code c\<close> is the key of the character with code \<open>c\<close>.
\<close>

datatype hidkey = Code int | KEY_CAPS_LOCK | KEY_LEFT_SHIFT | KEY_LEFT_CTRL | KEY_LEFT_ALT

datatype event =
    PinMode pin pinmode
  | DigitalWrite pin bool
  | DigitalRead pin bool
  | Press hidkey
  | Release hidkey
  | ReleaseAll
  | Delay nat
  | Println string
  | KeyboardBegin
  | SerialBegin nat

text \<open>
  The globals \<open>previousKey\<close>, \<open>currentKey\<close>, \<open>count\<close>, \<open>idlecount\<close>, the
  static local \<open>alphaLock\<close> of \<open>checkAlphaLock\<close>, and the trace of library calls.
  On the target (an 8-bit AVR) an \<open>int\<close> has 16 bits and an \<open>unsigned long\<close> 32.
  \<open>idlecount\<close> is a natural number incremented modulo \<open>2 ^ 32\<close>. \<open>count\<close> is an
  integer; \<open>count++\<close> at 32767 is a signed overflow, which the language leaves
  undefined and the target computes as a two's complement wrap-around: the model takes the
  wrap-around. \<open>previousKey\<close> and \<open>currentKey\<close> only ever hold character codes of
  the key table and 0; no arithmetic is done on them.
\<close>

record state =
  previousKey :: int
  currentKey :: int
  count :: int
  idlecount :: nat
  alphaLock :: int
  trace :: "event list"

definition inc_int :: "int \<Rightarrow> int" where
  "inc_int c = (if c = 32767 then - 32768 else c + 1)"

definition inc_ulong :: "nat \<Rightarrow> nat" where
  "inc_ulong n = (n + 1) mod 2 ^ 32"

definition emit :: "event \<Rightarrow> state \<Rightarrow> state" where
  "emit e s = s\<lparr>trace := trace s @ [e]\<rparr>"

definition pinMode :: "pin \<Rightarrow> pinmode \<Rightarrow> state \<Rightarrow> state" where
  "pinMode p m = emit (PinMode p m)"

definition digitalWrite :: "pin \<Rightarrow> bool \<Rightarrow> state \<Rightarrow> state" where
  "digitalWrite p v = emit (DigitalWrite p v)"

text \<open>\<open>digitalRead p v\<close>: the call \<open>digitalRead(p)\<close> that returned the level \<open>v\<close>.\<close>

definition digitalRead :: "pin \<Rightarrow> bool \<Rightarrow> state \<Rightarrow> state" where
  "digitalRead p v = emit (DigitalRead p v)"

definition Keyboard_press :: "hidkey \<Rightarrow> state \<Rightarrow> state" where
  "Keyboard_press k = emit (Press k)"

definition Keyboard_release :: "hidkey \<Rightarrow> state \<Rightarrow> state" where
  "Keyboard_release k = emit (Release k)"

definition Keyboard_releaseAll :: "state \<Rightarrow> state" where
  "Keyboard_releaseAll = emit ReleaseAll"

definition delay :: "nat \<Rightarrow> state \<Rightarrow> state" where
  "delay ms = emit (Delay ms)"

definition Serial_println :: "string \<Rightarrow> state \<Rightarrow> state" where
  "Serial_println str = emit (Println str)"

text \<open>
  What the hardware returns to the reads of one cycle, one level for each place where
  \<open>loop\<close> reads a pin: the enable pin, the three modifier columns in
  \<open>modifierPressed\<close>, column 7 in \<open>checkAlphaLock\<close>, and column \<open>j\<close> while
  row \<open>i\<close> is scanned.
\<close>

record inputs =
  enable_in :: bool
  mod_in :: "nat \<Rightarrow> bool"
  lock_in :: bool
  cell_in :: "nat \<Rightarrow> nat \<Rightarrow> bool"

subsection \<open>The functions of the sketch\<close>

definition scan_row :: "nat \<Rightarrow> nat \<Rightarrow> state \<Rightarrow> state" where
  "scan_row previousRow currentRow s =
     digitalWrite (rowPins ! currentRow) LOW
       (pinMode (rowPins ! currentRow) OUTPUT
         (pinMode (rowPins ! previousRow) INPUT s))"

definition disable_lastrow :: "state \<Rightarrow> state" where
  "disable_lastrow s = pinMode (rowPins ! (ROWS - 1)) INPUT s"

definition checkAlphaLock :: "inputs \<Rightarrow> state \<Rightarrow> state" where
  "checkAlphaLock inp s =
     (let s1 = disable_lastrow s;
          s2 = pinMode alphaLockRowPin OUTPUT s1;
          s3 = digitalWrite alphaLockRowPin LOW s2;
          alphaLockOff = lock_in inp;
          s4 = digitalRead (colPins ! 7) alphaLockOff s3;
          s5 = pinMode alphaLockRowPin INPUT_PULLUP s4
      in if \<not> alphaLockOff \<and> alphaLock s5 = 0 then
           Serial_println ''alphaLock on''
             (Keyboard_release KEY_CAPS_LOCK
               (Keyboard_press KEY_CAPS_LOCK (s5\<lparr>alphaLock := 1\<rparr>)))
         else if alphaLockOff \<and> alphaLock s5 \<noteq> 0 then
           Serial_println ''alphaLock off''
             (Keyboard_release KEY_CAPS_LOCK
               (Keyboard_press KEY_CAPS_LOCK (s5\<lparr>alphaLock := 0\<rparr>)))
         else s5)"

definition modifierPressed :: "inputs \<Rightarrow> state \<Rightarrow> nat \<times> state" where
  "modifierPressed inp s =
     (let s1 = digitalRead (colPins ! SHIFT) (mod_in inp SHIFT) s in
      if \<not> mod_in inp SHIFT then (SHIFT, s1)
      else
        let s2 = digitalRead (colPins ! CTRL) (mod_in inp CTRL) s1 in
        if \<not> mod_in inp CTRL then (CTRL, s2)
        else
          let s3 = digitalRead (colPins ! FCTN) (mod_in inp FCTN) s2 in
          if \<not> mod_in inp FCTN then (FCTN, s3)
          else (0, s3))"

definition pressModifier :: "nat \<Rightarrow> state \<Rightarrow> state" where
  "pressModifier modifier s =
     (if modifier = SHIFT then Keyboard_press KEY_LEFT_SHIFT s
      else if modifier = CTRL then Keyboard_press KEY_LEFT_CTRL s
      else if modifier = FCTN then Keyboard_press KEY_LEFT_ALT s
      else s)"

text \<open>
  The body of the inner \<open>for\<close> loop of \<open>loop\<close>: column \<open>j\<close> is read while row
  \<open>i\<close> is driven.
\<close>

definition column_body :: "inputs \<Rightarrow> nat \<Rightarrow> nat \<Rightarrow> nat \<Rightarrow> state \<Rightarrow> state" where
  "column_body inp modifier i j s =
     (let s1 = digitalRead (colPins ! j) (cell_in inp i j) s in
      if \<not> cell_in inp i j then
        let s2 = s1\<lparr>currentKey := of_char (keys ! i ! j)\<rparr>;
            s3 =
              (if currentKey s2 \<noteq> previousKey s2 \<or> idlecount s2 \<ge> 10000 then
                 let a = (if modifier \<noteq> 0 then pressModifier modifier s2 else s2);
                     b = Keyboard_press (Code (currentKey a)) a;
                     c = delay KBD_DELAY b;
                     d = c\<lparr>count := 0, idlecount := 0\<rparr>
                 in Serial_println ''Different key or idlecount timeout'' d
               else
                 let a = s2\<lparr>count := inc_int (count s2)\<rparr> in
                 if count a > 150 then
                   let b = (if modifier \<noteq> 0 then pressModifier modifier a else a);
                       c = Keyboard_press (Code (currentKey b)) b;
                       d = delay RPT_DELAY c;
                       e = d\<lparr>idlecount := 0\<rparr>
                   in Serial_println ''Key repeat'' e
                 else a);
            s4 = Keyboard_releaseAll s3
        in s4\<lparr>previousKey := currentKey s4\<rparr>
      else s1\<lparr>idlecount := inc_ulong (idlecount s1)\<rparr>)"

function cols_loop :: "inputs \<Rightarrow> nat \<Rightarrow> nat \<Rightarrow> nat \<Rightarrow> state \<Rightarrow> state" where
  "cols_loop inp modifier i j s =
     (if j < columns ! i
      then cols_loop inp modifier i (j + 1) (column_body inp modifier i j s)
      else s)"
  by pat_completeness auto
termination
  by (relation "measure (\<lambda>(inp, modifier, i, j, s). columns ! i - j)") auto

function rows_loop :: "inputs \<Rightarrow> nat \<Rightarrow> nat \<Rightarrow> nat \<Rightarrow> state \<Rightarrow> state" where
  "rows_loop inp modifier previousRow i s =
     (if i < ROWS
      then rows_loop inp modifier i (i + 1)
             (cols_loop inp modifier i 0 (scan_row previousRow i s))
      else s)"
  by pat_completeness auto
termination
  by (relation "measure (\<lambda>(inp, modifier, previousRow, i, s). ROWS - i)") auto

definition loop :: "inputs \<Rightarrow> state \<Rightarrow> state" where
  "loop inp s =
     (let enableState = enable_in inp;
          s0 = digitalRead enablePin enableState s;
          previousRow = ROWS - 1
      in if enableState = HIGH then
           let (modifier, s1) = modifierPressed inp s0;
               s2 = checkAlphaLock inp s1
           in rows_loop inp modifier previousRow 0 s2
         else s0)"


text \<open>
  \<open>setup_pins\<close> and \<open>setup\<close> (named \<open>setup_ino\<close> here); their two \<open>for\<close>
  loops run over all columns and all rows.
\<close>

definition setup_pins :: "state \<Rightarrow> state" where
  "setup_pins s =
     pinMode alphaLockRowPin INPUT_PULLUP
       (fold (\<lambda>i. pinMode (rowPins ! i) INPUT) [0..<ROWS]
         (fold (\<lambda>i. pinMode (colPins ! i) INPUT_PULLUP) [0..<COLS]
           (pinMode enablePin INPUT_PULLUP s)))"

definition setup_ino :: "state \<Rightarrow> state" where
  "setup_ino s =
     emit (SerialBegin 9600)
       (emit KeyboardBegin
         (digitalWrite (rowPins ! (ROWS - 1)) LOW
           (pinMode (rowPins ! (ROWS - 1)) OUTPUT
             (setup_pins s))))"

text \<open>The globals as their initialisers leave them, before any library call.\<close>

definition init :: state where
  "init = \<lparr>previousKey = 0, currentKey = 0, count = 0, idlecount = 0, alphaLock = 0,
            trace = []\<rparr>"

text \<open>The main program calls \<open>loop\<close> again and again: one call for each cycle's inputs.\<close>

fun run :: "inputs list \<Rightarrow> state \<Rightarrow> state" where
  "run [] s = s"
| "run (inp # ins) s = run ins (loop inp s)"

subsection \<open>Notions the properties are stated with\<close>

text \<open>
  The events of a trace that concern the host: the calls to the keyboard (the event sink)
  and the holds between them.
\<close>

fun is_sink :: "event \<Rightarrow> bool" where
  "is_sink (Press k) = True"
| "is_sink (Release k) = True"
| "is_sink ReleaseAll = True"
| "is_sink (Delay ms) = True"
| "is_sink e = False"

definition sink :: "event list \<Rightarrow> event list" where
  "sink evs = filter is_sink evs"

fun is_read :: "event \<Rightarrow> bool" where
  "is_read (DigitalRead p v) = True"
| "is_read e = False"

text \<open>The library calls made between state \<open>s\<close> and a later state \<open>s'\<close>.\<close>

definition added :: "state \<Rightarrow> state \<Rightarrow> event list" where
  "added s s' = drop (length (trace s)) (trace s')"

definition lockAsserted :: "state \<Rightarrow> bool" where
  "lockAsserted s = (alphaLock s \<noteq> 0)"

text \<open>The hold of the detected modifier, as the sink sees it.\<close>

definition modifier_hold :: "nat \<Rightarrow> event list" where
  "modifier_hold modifier =
     (if modifier = SHIFT then [Press KEY_LEFT_SHIFT]
      else if modifier = CTRL then [Press KEY_LEFT_CTRL]
      else if modifier = FCTN then [Press KEY_LEFT_ALT]
      else [])"

text \<open>
  The modifier detector as the specification words it: the first asserted modifier in the
  order SHIFT, CTRL, FCTN, and 0 (none) when no modifier line is asserted.
\<close>

definition first_asserted :: "(nat \<Rightarrow> bool) \<Rightarrow> nat" where
  "first_asserted asserted =
     (case find asserted [SHIFT, CTRL, FCTN] of Some m \<Rightarrow> m | None \<Rightarrow> 0)"

text \<open>The key of a cell, and the three ways an asserted cell is decided.\<close>

definition keyat :: "nat \<Rightarrow> nat \<Rightarrow> int" where
  "keyat i j = of_char (keys ! i ! j)"

definition fresh :: "nat \<Rightarrow> nat \<Rightarrow> state \<Rightarrow> bool" where
  "fresh i j s = (keyat i j \<noteq> previousKey s \<or> idlecount s \<ge> 10000)"

definition repeating :: "nat \<Rightarrow> nat \<Rightarrow> state \<Rightarrow> bool" where
  "repeating i j s = (\<not> fresh i j s \<and> inc_int (count s) > 150)"

text \<open>
  The keys the sink holds after a trace: \<open>press\<close> adds a key, \<open>release\<close> removes it,
  \<open>releaseAll\<close> removes all.
\<close>

fun held_step :: "hidkey set \<Rightarrow> event \<Rightarrow> hidkey set" where
  "held_step H (Press k) = insert k H"
| "held_step H (Release k) = H - {k}"
| "held_step H ReleaseAll = {}"
| "held_step H e = H"

definition held :: "event list \<Rightarrow> hidkey set" where
  "held evs = foldl held_step {} evs"

text \<open>Inputs for examples: the keyboard disabled; nothing pressed; one key pressed.\<close>

definition disabled :: inputs where
  "disabled = \<lparr>enable_in = LOW, mod_in = (\<lambda>c. HIGH), lock_in = HIGH,
                cell_in = (\<lambda>i j. LOW)\<rparr>"

definition no_key :: "(nat \<Rightarrow> bool) \<Rightarrow> bool \<Rightarrow> inputs" where
  "no_key mods lock = \<lparr>enable_in = HIGH, mod_in = mods, lock_in = lock,
                        cell_in = (\<lambda>i j. HIGH)\<rparr>"

definition one_key :: "nat \<Rightarrow> nat \<Rightarrow> inputs" where
  "one_key i0 j0 = \<lparr>enable_in = HIGH, mod_in = (\<lambda>c. HIGH), lock_in = HIGH,
                     cell_in = (\<lambda>i j. \<not> (i = i0 \<and> j = j0))\<rparr>"

text \<open>The number of column samples taken in the rows \<open>i\<close> to \<open>i1 - 1\<close>.\<close>

definition samples :: "nat \<Rightarrow> nat \<Rightarrow> nat" where
  "samples i i1 = sum_list (map ((!) columns) [i..<i1])"

text \<open>
  The library calls of the lock probe in \<open>checkAlphaLock\<close>: the last row is returned to
  input, the lock line is driven low, column 7 is sampled, the lock line is released.
\<close>

definition probe :: "inputs \<Rightarrow> event list" where
  "probe inp =
     [PinMode (rowPins ! (ROWS - 1)) INPUT,
      PinMode alphaLockRowPin OUTPUT,
      DigitalWrite alphaLockRowPin LOW,
      DigitalRead (colPins ! 7) (lock_in inp),
      PinMode alphaLockRowPin INPUT_PULLUP]"

text \<open>The caps-lock tap the lock detector sends in a cycle that starts in state \<open>s\<close>.\<close>

definition tap :: "inputs \<Rightarrow> state \<Rightarrow> event list" where
  "tap inp s =
     (if (lock_in inp = LOW) \<noteq> lockAsserted s
      then [Press KEY_CAPS_LOCK, Release KEY_CAPS_LOCK] else [])"

text \<open>The events that follow the probe in \<open>checkAlphaLock\<close>.\<close>

fun is_tap :: "event \<Rightarrow> bool" where
  "is_tap (Press k) = (k = KEY_CAPS_LOCK)"
| "is_tap (Release k) = (k = KEY_CAPS_LOCK)"
| "is_tap (Println str) = True"
| "is_tap e = False"

text \<open>The cells the matrix pass reads.\<close>

definition scanned :: "nat \<Rightarrow> nat \<Rightarrow> bool" where
  "scanned i j = (i < ROWS \<and> j < columns ! i)"

text \<open>An enabled cycle in which exactly the cell \<open>(i0, j0)\<close> reads asserted.\<close>

definition only_key :: "inputs \<Rightarrow> nat \<Rightarrow> nat \<Rightarrow> bool" where
  "only_key inp i0 j0 =
     (enable_in inp = HIGH \<and>
      list_all (\<lambda>i. list_all (\<lambda>j. cell_in inp i j = (\<not> (i = i0 \<and> j = j0)))
                       [0..<columns ! i]) [0..<ROWS])"

text \<open>The modifier detected in a cycle.\<close>

definition detected :: "inputs \<Rightarrow> nat" where
  "detected inp = first_asserted (\<lambda>c. mod_in inp c = LOW)"

text \<open>
  The state before cycle \<open>n\<close> of a run (cycles are numbered from 0), and the library
  calls of that cycle.
\<close>

definition before :: "inputs list \<Rightarrow> state \<Rightarrow> nat \<Rightarrow> state" where
  "before ins s n = run (take n ins) s"

definition cycle :: "inputs list \<Rightarrow> state \<Rightarrow> nat \<Rightarrow> event list" where
  "cycle ins s n = added (before ins s n) (loop (ins ! n) (before ins s n))"

text \<open>The number of column samples a pass takes after the cell \<open>(i0, j0)\<close>.\<close>

definition after_key :: "nat \<Rightarrow> nat \<Rightarrow> nat" where
  "after_key i0 j0 = columns ! i0 - Suc j0 + samples (Suc i0) ROWS"

text \<open>
  The direction of every pin after a trace: \<open>pinMode\<close> sets it, and every pin is an
  input before the first call. A line is driven when it is an output.
\<close>

fun is_pinmode :: "event \<Rightarrow> bool" where
  "is_pinmode (PinMode p d) = True"
| "is_pinmode e = False"

fun step_mode :: "(pin \<Rightarrow> pinmode) \<Rightarrow> event \<Rightarrow> (pin \<Rightarrow> pinmode)" where
  "step_mode m (PinMode p d) = m(p := d)"
| "step_mode m e = m"

definition pin_modes :: "event list \<Rightarrow> pin \<Rightarrow> pinmode" where
  "pin_modes tr = foldl step_mode (\<lambda>p. INPUT) tr"

text \<open>
  The six row lines and the lock line, and those of them that are driven after a trace.
\<close>

definition row_lines :: "pin list" where
  "row_lines = rowPins @ [alphaLockRowPin]"

definition driven :: "event list \<Rightarrow> pin list" where
  "driven tr = filter (\<lambda>p. pin_modes tr p = OUTPUT) row_lines"

text \<open>
  The direction changes of a matrix pass that starts at row \<open>i\<close> with
  \<open>previousRow = p\<close>.
\<close>

definition pins_from :: "nat \<Rightarrow> nat \<Rightarrow> event list" where
  "pins_from p i =
     concat (map (\<lambda>r. [PinMode (rowPins ! (if r = i then p else r - 1)) INPUT,
                        PinMode (rowPins ! r) OUTPUT]) [i..<ROWS])"

text \<open>At most one row line is driven, now and after each of the events that follow.\<close>

definition pins_ok :: "(pin \<Rightarrow> pinmode) \<Rightarrow> bool" where
  "pins_ok m = (length (filter (\<lambda>p. m p = OUTPUT) row_lines) \<le> 1)"

fun ok_run :: "(pin \<Rightarrow> pinmode) \<Rightarrow> event list \<Rightarrow> bool" where
  "ok_run m [] = pins_ok m"
| "ok_run m (e # es) = (pins_ok m \<and> ok_run (step_mode m e) es)"

text \<open>No row line but the last row is driven: the state of the pins between two cycles.\<close>

definition last_only :: "(pin \<Rightarrow> pinmode) \<Rightarrow> bool" where
  "last_only m = list_all (\<lambda>p. p = rowPins ! (ROWS - 1) \<or> m p \<noteq> OUTPUT) row_lines"

text \<open>
  The position of the first occurrence of an event, counted from 0 (the length of the list
  when it does not occur).
\<close>

definition first_index :: "'a \<Rightarrow> 'a list \<Rightarrow> nat" where
  "first_index e xs = length (takeWhile (\<lambda>x. x \<noteq> e) xs)"

text \<open>
  Two orders of the calls of a cycle: every row of the pass is activated before the lock
  line is; the lock line is activated before every row of the pass, and every row is
  activated.
\<close>

definition probe_after_pass :: "event list \<Rightarrow> bool" where
  "probe_after_pass evs =
     list_all (\<lambda>r. first_index (PinMode (rowPins ! r) OUTPUT) evs <
                    first_index (PinMode alphaLockRowPin OUTPUT) evs) [0..<ROWS]"

definition probe_before_pass :: "event list \<Rightarrow> bool" where
  "probe_before_pass evs =
     list_all (\<lambda>r. first_index (PinMode alphaLockRowPin OUTPUT) evs <
                    first_index (PinMode (rowPins ! r) OUTPUT) evs \<and>
                    first_index (PinMode (rowPins ! r) OUTPUT) evs < length evs) [0..<ROWS]"

text \<open>The pins are as a finished cycle, or \<open>setup\<close>, leaves them.\<close>

definition ready :: "state \<Rightarrow> bool" where
  "ready s = last_only (pin_modes (trace s))"

text \<open>
  The reads of \<open>modifierPressed\<close>: the SHIFT column, then the CTRL column unless SHIFT
  was asserted, then the FCTN column unless CTRL was.
\<close>

definition modifier_reads :: "inputs \<Rightarrow> event list" where
  "modifier_reads inp =
     DigitalRead (colPins ! SHIFT) (mod_in inp SHIFT) #
     (if mod_in inp SHIFT = LOW then []
      else DigitalRead (colPins ! CTRL) (mod_in inp CTRL) #
           (if mod_in inp CTRL = LOW then []
            else [DigitalRead (colPins ! FCTN) (mod_in inp FCTN)]))"

text \<open>
  The calls of \<open>checkAlphaLock\<close> after its probe, and the value it leaves in
  \<open>alphaLock\<close>.
\<close>

definition lock_events :: "inputs \<Rightarrow> state \<Rightarrow> event list" where
  "lock_events inp s =
     (if lock_in inp = LOW \<and> alphaLock s = 0
      then [Press KEY_CAPS_LOCK, Release KEY_CAPS_LOCK, Println ''alphaLock on'']
      else if lock_in inp = HIGH \<and> alphaLock s \<noteq> 0
      then [Press KEY_CAPS_LOCK, Release KEY_CAPS_LOCK, Println ''alphaLock off'']
      else [])"

definition lock_next :: "inputs \<Rightarrow> state \<Rightarrow> int" where
  "lock_next inp s =
     (if lock_in inp = HIGH then 0 else if alphaLock s = 0 then 1 else alphaLock s)"

text \<open>
  The part of an enabled cycle before the matrix pass: the detected modifier and the state
  in which the pass starts.
\<close>

definition cycle_start :: "inputs \<Rightarrow> state \<Rightarrow> nat \<times> state" where
  "cycle_start inp s =
     (let (modifier, s1) = modifierPressed inp (digitalRead enablePin (enable_in inp) s)
      in (modifier, checkAlphaLock inp s1))"

text \<open>
  One turn of the outer loop, for row \<open>r\<close>.
\<close>

definition row_pass :: "inputs \<Rightarrow> nat \<Rightarrow> nat \<Rightarrow> state \<Rightarrow> state" where
  "row_pass inp modifier r s =
     cols_loop inp modifier r 0 (scan_row (if r = 0 then ROWS - 1 else r - 1) r s)"

text \<open>
  The state in which the pass of a cycle started in \<open>s\<close> reaches the cell \<open>(i, j)\<close>:
  the rows before \<open>i\<close> are done, row \<open>i\<close> is driven, the columns before \<open>j\<close> are done.
\<close>

definition reach :: "inputs \<Rightarrow> state \<Rightarrow> nat \<Rightarrow> nat \<Rightarrow> state" where
  "reach inp s i j =
     (let (modifier, s2) = cycle_start inp s
      in fold (\<lambda>c. column_body inp modifier i c) [0..<j]
           (scan_row (if i = 0 then ROWS - 1 else i - 1) i
             (fold (row_pass inp modifier) [0..<i] s2)))"

text \<open>
  Inputs for examples: one key pressed together with SHIFT.
\<close>

definition shift_key :: "nat \<Rightarrow> nat \<Rightarrow> inputs" where
  "shift_key i0 j0 = \<lparr>enable_in = HIGH, mod_in = (\<lambda>c. c \<noteq> SHIFT), lock_in = HIGH,
                       cell_in = (\<lambda>i j. \<not> (i = i0 \<and> j = j0))\<rparr>"

text \<open>
  Between two cycles the last row is driven, and no other row line is.
\<close>

definition parked :: "state \<Rightarrow> bool" where
  "parked s = (ready s \<and> pin_modes (trace s) (rowPins ! (ROWS - 1)) = OUTPUT)"

section \<open>Properties\<close>

subsection \<open>Library calls and traces\<close>

declare cols_loop.simps [simp del] rows_loop.simps [simp del]

lemmas prims = emit_def pinMode_def digitalWrite_def digitalRead_def Keyboard_press_def
  Keyboard_release_def Keyboard_releaseAll_def delay_def Serial_println_def

lemma added_append [simp]: "trace s' = trace s @ evs \<Longrightarrow> added s s' = evs"
  by (simp add: added_def)

lemma sink_append [simp]: "sink (xs @ ys) = sink xs @ sink ys"
  by (simp add: sink_def)

lemma sink_Nil [simp]: "sink [] = []"
  by (simp add: sink_def)

lemma sink_Cons [simp]: "sink (e # es) = (if is_sink e then e # sink es else sink es)"
  by (simp add: sink_def)

lemma modifier_hold_0 [simp]: "modifier_hold 0 = []"
  by (simp add: modifier_hold_def)

lemma sink_modifier_hold [simp]: "sink (modifier_hold m) = modifier_hold m"
  by (simp add: modifier_hold_def)

lemma held_snoc [simp]: "held (evs @ [e]) = held_step (held evs) e"
  by (simp add: held_def)

lemma pressModifier_trace:
  "pressModifier modifier s = s\<lparr>trace := trace s @ modifier_hold modifier\<rparr>"
  by (simp add: pressModifier_def modifier_hold_def prims)

subsection \<open>One column sample\<close>

lemma column_body_idle:
  "cell_in inp i j \<Longrightarrow>
   column_body inp modifier i j s =
     s\<lparr>idlecount := inc_ulong (idlecount s),
       trace := trace s @ [DigitalRead (colPins ! j) True]\<rparr>"
  by (simp add: column_body_def prims)

lemma column_body_fresh:
  "\<not> cell_in inp i j \<Longrightarrow> fresh i j s \<Longrightarrow>
   column_body inp modifier i j s =
     s\<lparr>previousKey := keyat i j, currentKey := keyat i j, count := 0, idlecount := 0,
       trace := trace s @ [DigitalRead (colPins ! j) False] @ modifier_hold modifier @
         [Press (Code (keyat i j)), Delay KBD_DELAY,
          Println ''Different key or idlecount timeout'', ReleaseAll]\<rparr>"
  by (cases "modifier = 0")
     (auto simp add: column_body_def fresh_def keyat_def pressModifier_trace prims Let_def)

lemma column_body_repeat:
  "\<not> cell_in inp i j \<Longrightarrow> repeating i j s \<Longrightarrow>
   column_body inp modifier i j s =
     s\<lparr>previousKey := keyat i j, currentKey := keyat i j, count := inc_int (count s),
       idlecount := 0,
       trace := trace s @ [DigitalRead (colPins ! j) False] @ modifier_hold modifier @
         [Press (Code (keyat i j)), Delay RPT_DELAY, Println ''Key repeat'', ReleaseAll]\<rparr>"
  by (cases "modifier = 0")
     (auto simp add: column_body_def fresh_def repeating_def keyat_def pressModifier_trace
        prims Let_def)

lemma column_body_sustain:
  "\<not> cell_in inp i j \<Longrightarrow> \<not> fresh i j s \<Longrightarrow> \<not> repeating i j s \<Longrightarrow>
   column_body inp modifier i j s =
     s\<lparr>previousKey := keyat i j, currentKey := keyat i j, count := inc_int (count s),
       trace := trace s @ [DigitalRead (colPins ! j) False, ReleaseAll]\<rparr>"
  by (auto simp add: column_body_def fresh_def repeating_def keyat_def prims Let_def)

lemma column_body_ends_with_release:
  "\<not> cell_in inp i j \<Longrightarrow>
   \<exists>evs. trace (column_body inp modifier i j s) = trace s @ evs @ [ReleaseAll]"
  apply (cases "fresh i j s")
   apply (simp add: column_body_fresh)
  apply (cases "repeating i j s")
   apply (simp add: column_body_repeat)
  apply (simp add: column_body_sustain)
  done

text \<open>
  Claim C9. Whenever an asserted cell has been processed, the last call is
  \<open>releaseAll\<close> and the sink holds no key, also when the key was only sustained
  (same key, no idle timeout, repeat threshold not passed): then \<open>releaseAll\<close> is the
  only call the sink receives.
\<close>

theorem release_all_after_cell:
  assumes "cell_in inp i j = LOW"
  shows "last (trace (column_body inp modifier i j s)) = ReleaseAll \<and>
         held (trace (column_body inp modifier i j s)) = {} \<and>
         (keyat i j = previousKey s \<and> idlecount s < 10000 \<and> inc_int (count s) \<le> 150 \<longrightarrow>
            sink (added s (column_body inp modifier i j s)) = [ReleaseAll])"
proof -
  from assms have low: "\<not> cell_in inp i j" by simp
  then obtain evs where tr: "trace (column_body inp modifier i j s) = trace s @ evs @ [ReleaseAll]"
    using column_body_ends_with_release by blast
  have "trace (column_body inp modifier i j s) = (trace s @ evs) @ [ReleaseAll]"
    by (simp add: tr)
  then have 1: "last (trace (column_body inp modifier i j s)) = ReleaseAll"
    and 2: "held (trace (column_body inp modifier i j s)) = {}"
    by (simp_all only: last_snoc held_snoc held_step.simps)
  have 3: "sink (added s (column_body inp modifier i j s)) = [ReleaseAll]"
    if "keyat i j = previousKey s" "idlecount s < 10000" "inc_int (count s) \<le> 150"
  proof -
    from that have "\<not> fresh i j s" "\<not> repeating i j s"
      by (simp_all add: fresh_def repeating_def)
    with low show ?thesis by (simp add: column_body_sustain)
  qed
  from 1 2 3 show ?thesis by blast
qed

theorem release_all_after_cell_witness:
  "last (trace (column_body (one_key 0 6) 0 0 6 (init\<lparr>previousKey := 113\<rparr>))) = ReleaseAll \<and>
   held (trace (column_body (one_key 0 6) 0 0 6 (init\<lparr>previousKey := 113\<rparr>))) = {} \<and>
   sink (added (init\<lparr>previousKey := 113\<rparr>)
          (column_body (one_key 0 6) 0 0 6 (init\<lparr>previousKey := 113\<rparr>))) = [ReleaseAll]"
  using release_all_after_cell [of "one_key 0 6" 0 6 0 "init\<lparr>previousKey := 113\<rparr>"]
  by (simp add: one_key_def init_def keyat_def keys_def inc_int_def)

subsection \<open>The modifier and lock detectors, the enable gate\<close>



text \<open>
  Claim C4. \<open>checkAlphaLock\<close> sends a caps-lock tap (press, then release) exactly when
  the sampled state of the lock switch differs from the stored one; afterwards the stored
  state is the sampled one, \<open>alphaLock\<close> has changed exactly when the two differed, and
  the scan state is as before.
\<close>

theorem lock_edge:
  "sink (added s (checkAlphaLock inp s)) =
     (if (lock_in inp = LOW) \<noteq> lockAsserted s
      then [Press KEY_CAPS_LOCK, Release KEY_CAPS_LOCK] else []) \<and>
   lockAsserted (checkAlphaLock inp s) = (lock_in inp = LOW) \<and>
   (alphaLock (checkAlphaLock inp s) \<noteq> alphaLock s \<longleftrightarrow> (lock_in inp = LOW) \<noteq> lockAsserted s) \<and>
   previousKey (checkAlphaLock inp s) = previousKey s \<and>
   currentKey (checkAlphaLock inp s) = currentKey s \<and>
   count (checkAlphaLock inp s) = count s \<and>
   idlecount (checkAlphaLock inp s) = idlecount s"
  by (simp add: checkAlphaLock_def disable_lastrow_def prims added_def lockAsserted_def Let_def)

text \<open>
  Claim C5. In a cycle whose enable input reads LOW the only library call is the read of
  the enable pin: nothing reaches the sink, and the globals are unchanged.
\<close>

theorem disabled_cycle:
  "enable_in inp = LOW \<Longrightarrow>
     added s (loop inp s) = [DigitalRead enablePin LOW] \<and>
     sink (added s (loop inp s)) = [] \<and>
     previousKey (loop inp s) = previousKey s \<and>
     currentKey (loop inp s) = currentKey s \<and>
     count (loop inp s) = count s \<and>
     idlecount (loop inp s) = idlecount s \<and>
     alphaLock (loop inp s) = alphaLock s"
  by (simp add: loop_def prims added_def)

theorem disabled_cycle_witness:
  "added init (loop disabled init) = [DigitalRead enablePin LOW] \<and>
   sink (added init (loop disabled init)) = [] \<and>
   previousKey (loop disabled init) = previousKey init \<and>
   currentKey (loop disabled init) = currentKey init \<and>
   count (loop disabled init) = count init \<and>
   idlecount (loop disabled init) = idlecount init \<and>
   alphaLock (loop disabled init) = alphaLock init"
  using disabled_cycle [of disabled init]
  by (simp add: disabled_def)

subsection \<open>Rows and cycles in which no key, or one key, is pressed\<close>

lemma inc_ulong_funpow: "0 < n \<Longrightarrow> (inc_ulong ^^ n) x = (x + n) mod 2 ^ 32"
proof (induction n)
  case 0
  then show ?case by simp
next
  case (Suc n)
  show ?case
  proof (cases "n = 0")
    case True
    then show ?thesis by (simp add: inc_ulong_def)
  next
    case False
    with Suc.IH have "(inc_ulong ^^ n) x = (x + n) mod 2 ^ 32" by simp
    then have "(inc_ulong ^^ Suc n) x = inc_ulong ((x + n) mod 2 ^ 32)" by simp
    also have "\<dots> = (x + Suc n) mod 2 ^ 32"
      unfolding inc_ulong_def by (simp add: mod_Suc_eq)
    finally show ?thesis .
  qed
qed

lemma inc_ulong_small: "x + n < 2 ^ 32 \<Longrightarrow> (inc_ulong ^^ n) x = x + n"
  by (cases "n = 0") (simp_all add: inc_ulong_funpow)

lemma columns_pos: "i < ROWS \<Longrightarrow> 0 < columns ! i"
  by (auto simp add: columns_def less_Suc_eq numeral_eq_Suc)

lemma cols_loop_done: "cols_loop inp modifier i (columns ! i) s = s"
  by (subst cols_loop.simps) simp

lemma rows_loop_done: "rows_loop inp modifier p ROWS s = s"
  by (subst rows_loop.simps) simp

lemma cols_idle_segment:
  "j \<le> j1 \<Longrightarrow> j1 \<le> columns ! i \<Longrightarrow> (\<forall>c. j \<le> c \<and> c < j1 \<longrightarrow> cell_in inp i c) \<Longrightarrow>
   \<exists>evs. sink evs = [] \<and> (\<forall>e\<in>set evs. is_read e) \<and>
     cols_loop inp modifier i j s =
     cols_loop inp modifier i j1
       (s\<lparr>idlecount := (inc_ulong ^^ (j1 - j)) (idlecount s), trace := trace s @ evs\<rparr>)"
proof (induction "j1 - j" arbitrary: j s)
  case 0
  then have "j = j1" by simp
  then show ?case by (intro exI [of _ "[]"]) simp
next
  case (Suc d)
  then have lt: "j < j1" and d: "d = j1 - Suc j" by simp_all
  from lt Suc.prems have cell: "cell_in inp i j" and lt': "j < columns ! i" by auto
  let ?s1 = "s\<lparr>idlecount := inc_ulong (idlecount s),
       trace := trace s @ [DigitalRead (colPins ! j) True]\<rparr>"
  have step: "cols_loop inp modifier i j s = cols_loop inp modifier i (Suc j) ?s1"
    using lt' cell by (subst cols_loop.simps) (simp add: column_body_idle)
  from Suc.hyps(1) [OF d, of ?s1] lt Suc.prems
  obtain evs where evs: "sink evs = []" "\<forall>e\<in>set evs. is_read e"
    "cols_loop inp modifier i (Suc j) ?s1 =
     cols_loop inp modifier i j1
       (?s1\<lparr>idlecount := (inc_ulong ^^ (j1 - Suc j)) (idlecount ?s1), trace := trace ?s1 @ evs\<rparr>)"
    by auto
  have fp: "(inc_ulong ^^ (j1 - Suc j)) (inc_ulong (idlecount s)) = (inc_ulong ^^ (j1 - j)) (idlecount s)"
  proof -
    from lt have "j1 - j = Suc (j1 - Suc j)" by simp
    then show ?thesis by (simp only: funpow_Suc_right o_apply)
  qed
  let ?evs = "DigitalRead (colPins ! j) True # evs"
  have "sink ?evs = [] \<and> (\<forall>e\<in>set ?evs. is_read e) \<and>
     cols_loop inp modifier i j s =
     cols_loop inp modifier i j1
       (s\<lparr>idlecount := (inc_ulong ^^ (j1 - j)) (idlecount s), trace := trace s @ ?evs\<rparr>)"
    using evs step fp by simp
  then show ?case by (rule exI)
qed

lemma samples_Suc: "i < i1 \<Longrightarrow> samples i i1 = columns ! i + samples (Suc i) i1"
  by (simp add: samples_def upt_conv_Cons)

lemma samples_same [simp]: "samples i i = 0"
  by (simp add: samples_def)

lemma scan_row_eq:
  "scan_row p i s =
     s\<lparr>trace := trace s @ [PinMode (rowPins ! p) INPUT, PinMode (rowPins ! i) OUTPUT,
        DigitalWrite (rowPins ! i) LOW]\<rparr>"
  by (simp add: scan_row_def prims)

lemma rows_idle_segment:
  "i \<le> i1 \<Longrightarrow> i1 \<le> ROWS \<Longrightarrow>
   (\<forall>r c. i \<le> r \<and> r < i1 \<and> c < columns ! r \<longrightarrow> cell_in inp r c) \<Longrightarrow>
   \<exists>evs. sink evs = [] \<and>
     rows_loop inp modifier p i s =
     rows_loop inp modifier (if i < i1 then i1 - 1 else p) i1
       (s\<lparr>idlecount := (inc_ulong ^^ samples i i1) (idlecount s), trace := trace s @ evs\<rparr>)"
proof (induction "i1 - i" arbitrary: i p s)
  case 0
  then have "i = i1" by simp
  then show ?case by (intro exI [of _ "[]"]) simp
next
  case (Suc d)
  then have lt: "i < i1" and d: "d = i1 - Suc i" by simp_all
  with Suc.prems have row: "i < ROWS" by simp
  let ?s0 = "scan_row p i s"
  from Suc.prems lt have "\<forall>c. 0 \<le> c \<and> c < columns ! i \<longrightarrow> cell_in inp i c" by simp
  from cols_idle_segment [OF _ _ this, of modifier ?s0]
  obtain e1 where e1: "sink e1 = []"
    "cols_loop inp modifier i 0 ?s0 =
       ?s0\<lparr>idlecount := (inc_ulong ^^ (columns ! i)) (idlecount ?s0), trace := trace ?s0 @ e1\<rparr>"
    by (auto simp add: cols_loop_done)
  let ?s1 = "cols_loop inp modifier i 0 ?s0"
  have step: "rows_loop inp modifier p i s = rows_loop inp modifier i (Suc i) ?s1"
    using row by (subst rows_loop.simps) simp
  from Suc.hyps(1) [OF d, of i ?s1] lt Suc.prems
  obtain e2 where e2: "sink e2 = []"
    "rows_loop inp modifier i (Suc i) ?s1 =
     rows_loop inp modifier (if Suc i < i1 then i1 - 1 else i) i1
       (?s1\<lparr>idlecount := (inc_ulong ^^ samples (Suc i) i1) (idlecount ?s1),
             trace := trace ?s1 @ e2\<rparr>)"
    by auto
  have p: "(if Suc i < i1 then i1 - 1 else i) = i1 - 1"
    using lt by auto
  have fp: "(inc_ulong ^^ samples (Suc i) i1) ((inc_ulong ^^ (columns ! i)) x) =
            (inc_ulong ^^ samples i i1) x" for x
  proof -
    from lt have "samples i i1 = samples (Suc i) i1 + columns ! i"
      by (simp add: samples_Suc)
    then show ?thesis by (simp only: funpow_add o_apply)
  qed
  let ?evs = "[PinMode (rowPins ! p) INPUT, PinMode (rowPins ! i) OUTPUT,
        DigitalWrite (rowPins ! i) LOW] @ e1 @ e2"
  have "sink ?evs = [] \<and>
     rows_loop inp modifier p i s =
     rows_loop inp modifier (if i < i1 then i1 - 1 else p) i1
       (s\<lparr>idlecount := (inc_ulong ^^ samples i i1) (idlecount s), trace := trace s @ ?evs\<rparr>)"
    using e1 e2 step fp lt p by (simp add: scan_row_eq)
  then show ?case by (rule exI)
qed

lemma modifierPressed_eq:
  "\<exists>evs. sink evs = [] \<and> (\<forall>e\<in>set evs. is_read e) \<and>
     modifierPressed inp s =
       (first_asserted (\<lambda>c. mod_in inp c = LOW), s\<lparr>trace := trace s @ evs\<rparr>)"
proof (cases "mod_in inp SHIFT")
  case False
  then show ?thesis
    by (intro exI [of _ "[DigitalRead (colPins ! SHIFT) False]"])
       (simp add: modifierPressed_def first_asserted_def prims)
next
  case sh: True
  show ?thesis
  proof (cases "mod_in inp CTRL")
    case False
    with sh show ?thesis
      by (intro exI [of _ "[DigitalRead (colPins ! SHIFT) True, DigitalRead (colPins ! CTRL) False]"])
         (simp add: modifierPressed_def first_asserted_def prims)
  next
    case True
    with sh show ?thesis
      by (intro exI [of _ "[DigitalRead (colPins ! SHIFT) True, DigitalRead (colPins ! CTRL) True,
            DigitalRead (colPins ! FCTN) (mod_in inp FCTN)]"])
         (simp add: modifierPressed_def first_asserted_def prims)
  qed
qed

lemma checkAlphaLock_eq:
  "\<exists>evs a. sink evs = tap inp s \<and> (\<forall>e\<in>set evs. is_tap e) \<and>
     checkAlphaLock inp s = s\<lparr>alphaLock := a, trace := trace s @ probe inp @ evs\<rparr>"
proof -
  consider (on) "\<not> lock_in inp" "alphaLock s = 0"
    | (off) "lock_in inp" "alphaLock s \<noteq> 0"
    | (same) "lock_in inp = (alphaLock s = 0)"
    by blast
  then show ?thesis
  proof cases
    case on
    then show ?thesis
      by (intro exI [of _ "[Press KEY_CAPS_LOCK, Release KEY_CAPS_LOCK, Println ''alphaLock on'']"]
            exI [of _ 1])
         (simp add: checkAlphaLock_def disable_lastrow_def prims tap_def probe_def lockAsserted_def)
  next
    case off
    then show ?thesis
      by (intro exI [of _ "[Press KEY_CAPS_LOCK, Release KEY_CAPS_LOCK, Println ''alphaLock off'']"]
            exI [of _ 0])
         (simp add: checkAlphaLock_def disable_lastrow_def prims tap_def probe_def lockAsserted_def)
  next
    case same
    then show ?thesis
      by (intro exI [of _ "[]"] exI [of _ "alphaLock s"])
         (auto simp add: checkAlphaLock_def disable_lastrow_def prims tap_def probe_def lockAsserted_def)
  qed
qed

lemma loop_enabled:
  assumes "enable_in inp = HIGH"
  shows "\<exists>M T a. sink M = [] \<and> (\<forall>e\<in>set M. is_read e) \<and> sink T = tap inp s \<and>
      (\<forall>e\<in>set T. is_tap e) \<and>
      loop inp s =
        rows_loop inp (first_asserted (\<lambda>c. mod_in inp c = LOW)) (ROWS - 1) 0
          (s\<lparr>alphaLock := a,
             trace := trace s @ [DigitalRead enablePin HIGH] @ M @ probe inp @ T\<rparr>)"
proof -
  let ?s0 = "digitalRead enablePin HIGH s"
  obtain M where M: "sink M = []" "\<forall>e\<in>set M. is_read e"
    "modifierPressed inp ?s0 =
       (first_asserted (\<lambda>c. mod_in inp c = LOW), ?s0\<lparr>trace := trace ?s0 @ M\<rparr>)"
    using modifierPressed_eq [of inp ?s0] by blast
  let ?s1 = "?s0\<lparr>trace := trace ?s0 @ M\<rparr>"
  obtain T a where T: "sink T = tap inp ?s1" "\<forall>e\<in>set T. is_tap e"
    "checkAlphaLock inp ?s1 = ?s1\<lparr>alphaLock := a, trace := trace ?s1 @ probe inp @ T\<rparr>"
    using checkAlphaLock_eq [of inp ?s1] by blast
  have tap: "tap inp ?s1 = tap inp s"
    by (simp add: tap_def lockAsserted_def prims)
  have "loop inp s =
        rows_loop inp (first_asserted (\<lambda>c. mod_in inp c = LOW)) (ROWS - 1) 0
          (s\<lparr>alphaLock := a,
             trace := trace s @ [DigitalRead enablePin HIGH] @ M @ probe inp @ T\<rparr>)"
    using assms M(3) T(3) by (simp add: loop_def prims)
  with M(1,2) T(1,2) tap show ?thesis by metis
qed

lemma loop_no_key:
  assumes "enable_in inp = HIGH" and "\<forall>i j. scanned i j \<longrightarrow> cell_in inp i j = HIGH"
  shows "\<exists>evs a. sink evs = tap inp s \<and>
      loop inp s =
        s\<lparr>idlecount := (inc_ulong ^^ samples 0 ROWS) (idlecount s), alphaLock := a,
          trace := trace s @ evs\<rparr>"
proof -
  from loop_enabled [OF assms(1), of s]
  obtain M T a where MT: "sink M = []" "sink T = tap inp s"
      "loop inp s =
        rows_loop inp (first_asserted (\<lambda>c. mod_in inp c = LOW)) (ROWS - 1) 0
          (s\<lparr>alphaLock := a,
             trace := trace s @ [DigitalRead enablePin HIGH] @ M @ probe inp @ T\<rparr>)"
    by blast
  let ?s2 = "s\<lparr>alphaLock := a,
             trace := trace s @ [DigitalRead enablePin HIGH] @ M @ probe inp @ T\<rparr>"
  from assms(2) have "\<forall>r c. 0 \<le> r \<and> r < ROWS \<and> c < columns ! r \<longrightarrow> cell_in inp r c"
    by (simp add: scanned_def)
  from rows_idle_segment [OF _ _ this, of "first_asserted (\<lambda>c. mod_in inp c = LOW)" "ROWS - 1" ?s2]
  obtain R where R: "sink R = []"
    "rows_loop inp (first_asserted (\<lambda>c. mod_in inp c = LOW)) (ROWS - 1) 0 ?s2 =
       ?s2\<lparr>idlecount := (inc_ulong ^^ samples 0 ROWS) (idlecount ?s2), trace := trace ?s2 @ R\<rparr>"
    using rows_loop_done [of inp _ "ROWS - 1"] by auto
  let ?evs = "[DigitalRead enablePin HIGH] @ M @ probe inp @ T @ R"
  have "sink ?evs = tap inp s \<and>
      loop inp s =
        s\<lparr>idlecount := (inc_ulong ^^ samples 0 ROWS) (idlecount s), alphaLock := a,
          trace := trace s @ ?evs\<rparr>"
    using MT R by (simp add: probe_def)
  then show ?thesis by blast
qed

lemma cols_one_key:
  assumes "j0 < columns ! i" and "\<forall>c < columns ! i. cell_in inp i c = (c \<noteq> j0)"
  shows "\<exists>e1 e2. sink e1 = [] \<and> sink e2 = [] \<and>
     cols_loop inp modifier i 0 s =
       (let X = column_body inp modifier i j0
                  (s\<lparr>idlecount := (inc_ulong ^^ j0) (idlecount s), trace := trace s @ e1\<rparr>)
        in X\<lparr>idlecount := (inc_ulong ^^ (columns ! i - Suc j0)) (idlecount X),
             trace := trace X @ e2\<rparr>)"
proof -
  from assms have "\<forall>c. 0 \<le> c \<and> c < j0 \<longrightarrow> cell_in inp i c" by simp
  from cols_idle_segment [OF _ _ this, of modifier s] assms(1)
  obtain e1 where e1: "sink e1 = []"
    "cols_loop inp modifier i 0 s =
     cols_loop inp modifier i j0
       (s\<lparr>idlecount := (inc_ulong ^^ j0) (idlecount s), trace := trace s @ e1\<rparr>)"
    by auto
  let ?sc = "s\<lparr>idlecount := (inc_ulong ^^ j0) (idlecount s), trace := trace s @ e1\<rparr>"
  let ?X = "column_body inp modifier i j0 ?sc"
  have step: "cols_loop inp modifier i j0 ?sc = cols_loop inp modifier i (Suc j0) ?X"
    using assms(1) by (subst cols_loop.simps) simp
  from assms have "\<forall>c. Suc j0 \<le> c \<and> c < columns ! i \<longrightarrow> cell_in inp i c" by simp
  from cols_idle_segment [OF _ _ this, of modifier ?X] assms(1)
  obtain e2 where e2: "sink e2 = []"
    "cols_loop inp modifier i (Suc j0) ?X =
       ?X\<lparr>idlecount := (inc_ulong ^^ (columns ! i - Suc j0)) (idlecount ?X),
          trace := trace ?X @ e2\<rparr>"
    by (auto simp add: cols_loop_done)
  have "sink e1 = [] \<and> sink e2 = [] \<and>
     cols_loop inp modifier i 0 s =
       (let X = column_body inp modifier i j0
                  (s\<lparr>idlecount := (inc_ulong ^^ j0) (idlecount s), trace := trace s @ e1\<rparr>)
        in X\<lparr>idlecount := (inc_ulong ^^ (columns ! i - Suc j0)) (idlecount X),
             trace := trace X @ e2\<rparr>)"
    using e1 e2 step by (simp add: Let_def)
  then show ?thesis by blast
qed

lemma funpow_join: "(f ^^ a) ((f ^^ b) x) = (f ^^ (b + a)) x"
  by (metis add.commute funpow_add o_apply)

lemma rows_one_key:
  assumes "i0 < ROWS" and "j0 < columns ! i0"
    and "\<forall>i j. scanned i j \<longrightarrow> cell_in inp i j = (\<not> (i = i0 \<and> j = j0))"
  shows "\<exists>e1 e2. sink e1 = [] \<and> sink e2 = [] \<and>
     rows_loop inp modifier p 0 s =
       (let X = column_body inp modifier i0 j0
                  (s\<lparr>idlecount := (inc_ulong ^^ (samples 0 i0 + j0)) (idlecount s),
                     trace := trace s @ e1\<rparr>)
        in X\<lparr>idlecount :=
               (inc_ulong ^^ (columns ! i0 - Suc j0 + samples (Suc i0) ROWS)) (idlecount X),
             trace := trace X @ e2\<rparr>)"
proof -
  from assms have "\<forall>r c. 0 \<le> r \<and> r < i0 \<and> c < columns ! r \<longrightarrow> cell_in inp r c"
    by (simp add: scanned_def)
  from rows_idle_segment [OF _ _ this, of modifier p s] assms(1)
  obtain a where a: "sink a = []"
    "rows_loop inp modifier p 0 s =
     rows_loop inp modifier (if 0 < i0 then i0 - 1 else p) i0
       (s\<lparr>idlecount := (inc_ulong ^^ samples 0 i0) (idlecount s), trace := trace s @ a\<rparr>)"
    by auto
  let ?p = "if 0 < i0 then i0 - 1 else p"
  let ?s1 = "s\<lparr>idlecount := (inc_ulong ^^ samples 0 i0) (idlecount s), trace := trace s @ a\<rparr>"
  let ?s2 = "scan_row ?p i0 ?s1"
  have step: "rows_loop inp modifier ?p i0 ?s1 =
      rows_loop inp modifier i0 (Suc i0) (cols_loop inp modifier i0 0 ?s2)"
    using assms(1) by (subst rows_loop.simps) simp
  from assms have "\<forall>c < columns ! i0. cell_in inp i0 c = (c \<noteq> j0)"
    by (simp add: scanned_def)
  from cols_one_key [OF assms(2) this, of modifier ?s2]
  obtain b c where bc: "sink b = []" "sink c = []"
    "cols_loop inp modifier i0 0 ?s2 =
       (let X = column_body inp modifier i0 j0
                  (?s2\<lparr>idlecount := (inc_ulong ^^ j0) (idlecount ?s2), trace := trace ?s2 @ b\<rparr>)
        in X\<lparr>idlecount := (inc_ulong ^^ (columns ! i0 - Suc j0)) (idlecount X),
             trace := trace X @ c\<rparr>)"
    by blast
  let ?e1 = "a @ [PinMode (rowPins ! ?p) INPUT, PinMode (rowPins ! i0) OUTPUT,
        DigitalWrite (rowPins ! i0) LOW] @ b"
  let ?sc = "s\<lparr>idlecount := (inc_ulong ^^ (samples 0 i0 + j0)) (idlecount s),
                     trace := trace s @ ?e1\<rparr>"
  let ?X = "column_body inp modifier i0 j0 ?sc"
  have sc: "?s2\<lparr>idlecount := (inc_ulong ^^ j0) (idlecount ?s2), trace := trace ?s2 @ b\<rparr> = ?sc"
    by (simp add: scan_row_eq funpow_join)
  let ?s3 = "?X\<lparr>idlecount := (inc_ulong ^^ (columns ! i0 - Suc j0)) (idlecount ?X),
             trace := trace ?X @ c\<rparr>"
  have s3: "cols_loop inp modifier i0 0 ?s2 = ?s3"
    using bc(3) unfolding sc by (simp add: Let_def)
  from assms have "\<forall>r c. Suc i0 \<le> r \<and> r < ROWS \<and> c < columns ! r \<longrightarrow> cell_in inp r c"
    by (simp add: scanned_def)
  from rows_idle_segment [OF _ _ this, of modifier i0 ?s3] assms(1)
  obtain d where d: "sink d = []"
    "rows_loop inp modifier i0 (Suc i0) ?s3 =
       ?s3\<lparr>idlecount := (inc_ulong ^^ samples (Suc i0) ROWS) (idlecount ?s3),
           trace := trace ?s3 @ d\<rparr>"
    using rows_loop_done [of inp modifier] by auto
  have fp: "(inc_ulong ^^ samples (Suc i0) ROWS) ((inc_ulong ^^ (columns ! i0 - Suc j0)) x) =
            (inc_ulong ^^ (columns ! i0 - Suc j0 + samples (Suc i0) ROWS)) x" for x
    by (rule funpow_join)
  have "rows_loop inp modifier p 0 s =
       ?X\<lparr>idlecount :=
               (inc_ulong ^^ (columns ! i0 - Suc j0 + samples (Suc i0) ROWS)) (idlecount ?X),
             trace := trace ?X @ (c @ d)\<rparr>"
    unfolding a(2) step s3 d(2) by (simp add: funpow_join)
  moreover have "sink ?e1 = []" "sink (c @ d) = []"
    using a(1) bc(1,2) d(1) by simp_all
  ultimately show ?thesis
    unfolding Let_def by blast
qed

lemma only_key_iff:
  "only_key inp i0 j0 \<longleftrightarrow>
     enable_in inp = HIGH \<and>
     (\<forall>i j. scanned i j \<longrightarrow> cell_in inp i j = (\<not> (i = i0 \<and> j = j0)))"
  by (auto simp add: only_key_def scanned_def list_all_iff)

lemma loop_one_key:
  assumes "only_key inp i0 j0" and "i0 < ROWS" and "j0 < columns ! i0"
  shows "\<exists>e1 e2 a. sink e1 = tap inp s \<and> sink e2 = [] \<and>
     loop inp s =
       (let X = column_body inp (detected inp) i0 j0
                  (s\<lparr>alphaLock := a,
                     idlecount := (inc_ulong ^^ (samples 0 i0 + j0)) (idlecount s),
                     trace := trace s @ e1\<rparr>)
        in X\<lparr>idlecount :=
               (inc_ulong ^^ (columns ! i0 - Suc j0 + samples (Suc i0) ROWS)) (idlecount X),
             trace := trace X @ e2\<rparr>)"
proof -
  from assms(1) have en: "enable_in inp = HIGH"
    and cells: "\<forall>i j. scanned i j \<longrightarrow> cell_in inp i j = (\<not> (i = i0 \<and> j = j0))"
    by (simp_all add: only_key_iff)
  from loop_enabled [OF en, of s]
  obtain M T a where MT: "sink M = []" "sink T = tap inp s"
      "loop inp s =
        rows_loop inp (detected inp) (ROWS - 1) 0
          (s\<lparr>alphaLock := a,
             trace := trace s @ [DigitalRead enablePin HIGH] @ M @ probe inp @ T\<rparr>)"
    unfolding detected_def by blast
  let ?s2 = "s\<lparr>alphaLock := a,
             trace := trace s @ [DigitalRead enablePin HIGH] @ M @ probe inp @ T\<rparr>"
  from rows_one_key [OF assms(2,3) cells, of "detected inp" "ROWS - 1" ?s2]
  obtain b c where bc: "sink b = []" "sink c = []"
    "rows_loop inp (detected inp) (ROWS - 1) 0 ?s2 =
       (let X = column_body inp (detected inp) i0 j0
                  (?s2\<lparr>idlecount := (inc_ulong ^^ (samples 0 i0 + j0)) (idlecount ?s2),
                     trace := trace ?s2 @ b\<rparr>)
        in X\<lparr>idlecount :=
               (inc_ulong ^^ (columns ! i0 - Suc j0 + samples (Suc i0) ROWS)) (idlecount X),
             trace := trace X @ c\<rparr>)"
    by blast
  let ?e1 = "[DigitalRead enablePin HIGH] @ M @ probe inp @ T @ b"
  have "sink ?e1 = tap inp s \<and> sink c = [] \<and>
     loop inp s =
       (let X = column_body inp (detected inp) i0 j0
                  (s\<lparr>alphaLock := a,
                     idlecount := (inc_ulong ^^ (samples 0 i0 + j0)) (idlecount s),
                     trace := trace s @ ?e1\<rparr>)
        in X\<lparr>idlecount :=
               (inc_ulong ^^ (columns ! i0 - Suc j0 + samples (Suc i0) ROWS)) (idlecount X),
             trace := trace X @ c\<rparr>)"
    using MT bc by (simp add: probe_def Let_def)
  then show ?thesis by blast
qed

lemma samples_total:
  assumes "i0 < ROWS"
  shows "samples 0 i0 + columns ! i0 + samples (Suc i0) ROWS = 43"
proof -
  from assms have "i0 = 0 \<or> i0 = 1 \<or> i0 = 2 \<or> i0 = 3 \<or> i0 = 4 \<or> i0 = 5"
    by auto
  then show ?thesis
    by (elim disjE) (simp_all add: samples_def columns_def upt_rec)
qed

lemma samples_all: "samples 0 ROWS = 43"
  by (simp add: samples_def columns_def upt_rec)

text \<open>
  Claim C8. Scanning a row in which no column reads asserted increments \<open>idlecount\<close>
  once for each column sample of the row (an \<open>unsigned long\<close>, so modulo \<open>2 ^ 32\<close>),
  sends nothing to the sink and leaves the other scan globals alone. For every column
  sample, \<open>idlecount\<close> is incremented when the column reads not pressed, set to 0 when a
  fresh press or a repeat is emitted, and unchanged otherwise; the key is pressed exactly
  in the fresh and repeat cases.
\<close>

theorem idle_counting:
  assumes "i < ROWS" and "\<forall>c < columns ! i. cell_in inp i c = HIGH"
  shows "idlecount (cols_loop inp modifier i 0 s) = (idlecount s + columns ! i) mod 2 ^ 32 \<and>
         idlecount (cols_loop inp modifier i 0 s) = (inc_ulong ^^ (columns ! i)) (idlecount s) \<and>
         sink (added s (cols_loop inp modifier i 0 s)) = [] \<and>
         previousKey (cols_loop inp modifier i 0 s) = previousKey s \<and>
         currentKey (cols_loop inp modifier i 0 s) = currentKey s \<and>
         count (cols_loop inp modifier i 0 s) = count s \<and>
         idlecount (column_body inp' modifier' i' j' s') =
           (if cell_in inp' i' j' = HIGH then inc_ulong (idlecount s')
            else if fresh i' j' s' \<or> repeating i' j' s' then 0
            else idlecount s') \<and>
         (Press (Code (keyat i' j')) \<in> set (added s' (column_body inp' modifier' i' j' s')) \<longleftrightarrow>
            cell_in inp' i' j' = LOW \<and> (fresh i' j' s' \<or> repeating i' j' s'))"
proof -
  from assms(2) have "\<forall>c. 0 \<le> c \<and> c < columns ! i \<longrightarrow> cell_in inp i c" by simp
  from cols_idle_segment [OF _ _ this, of modifier s]
  obtain evs where "sink evs = []" and
    "cols_loop inp modifier i 0 s =
       s\<lparr>idlecount := (inc_ulong ^^ (columns ! i)) (idlecount s), trace := trace s @ evs\<rparr>"
    by (auto simp add: cols_loop_done)
  then have row: "idlecount (cols_loop inp modifier i 0 s) = (idlecount s + columns ! i) mod 2 ^ 32 \<and>
         idlecount (cols_loop inp modifier i 0 s) = (inc_ulong ^^ (columns ! i)) (idlecount s) \<and>
         sink (added s (cols_loop inp modifier i 0 s)) = [] \<and>
         previousKey (cols_loop inp modifier i 0 s) = previousKey s \<and>
         currentKey (cols_loop inp modifier i 0 s) = currentKey s \<and>
         count (cols_loop inp modifier i 0 s) = count s"
    using columns_pos [OF assms(1)] by (simp add: inc_ulong_funpow)
  have cell: "idlecount (column_body inp' modifier' i' j' s') =
           (if cell_in inp' i' j' = HIGH then inc_ulong (idlecount s')
            else if fresh i' j' s' \<or> repeating i' j' s' then 0
            else idlecount s') \<and>
         (Press (Code (keyat i' j')) \<in> set (added s' (column_body inp' modifier' i' j' s')) \<longleftrightarrow>
            cell_in inp' i' j' = LOW \<and> (fresh i' j' s' \<or> repeating i' j' s'))"
    apply (cases "cell_in inp' i' j'")
     apply (simp add: column_body_idle)
    apply (cases "fresh i' j' s'")
     apply (simp add: column_body_fresh)
    apply (cases "repeating i' j' s'")
     apply (simp add: column_body_repeat)
    apply (simp add: column_body_sustain)
    done
  from row cell show ?thesis by simp
qed

theorem idle_counting_witness:
  "idlecount (cols_loop (no_key (\<lambda>c. HIGH) HIGH) 0 5 0 init) = 3 \<and>
   sink (added init (cols_loop (no_key (\<lambda>c. HIGH) HIGH) 0 5 0 init)) = [] \<and>
   previousKey (cols_loop (no_key (\<lambda>c. HIGH) HIGH) 0 5 0 init) = 0 \<and>
   count (cols_loop (no_key (\<lambda>c. HIGH) HIGH) 0 5 0 init) = 0 \<and>
   idlecount (column_body (one_key 0 6) 0 0 6 (init\<lparr>idlecount := 7\<rparr>)) = 0 \<and>
   idlecount (column_body (one_key 0 6) 0 0 5 (init\<lparr>idlecount := 7\<rparr>)) = 8"
  using idle_counting [of 5 "no_key (\<lambda>c. HIGH) HIGH" 0 init "one_key 0 6" 0 0 6 "init\<lparr>idlecount := 7\<rparr>"]
    idle_counting [of 5 "no_key (\<lambda>c. HIGH) HIGH" 0 init "one_key 0 6" 0 0 5 "init\<lparr>idlecount := 7\<rparr>"]
  by (simp add: no_key_def one_key_def init_def columns_def fresh_def keyat_def keys_def inc_ulong_def)

text \<open>
  Claim C10. In an enabled cycle in which no scanned cell reads asserted, whatever the
  modifier lines read, the only calls that reach the sink are the lock detector's tap (if
  any): no modifier key is pressed and \<open>releaseAll\<close> is not called, and
  \<open>previousKey\<close> and \<open>count\<close> are unchanged. For every column sample, the sink sees
  nothing, or \<open>releaseAll\<close> alone, or the modifier hold directly followed by the press of
  the key, a hold and \<open>releaseAll\<close>.
\<close>

theorem modifier_alone:
  assumes "enable_in inp = HIGH" and "\<forall>i j. scanned i j \<longrightarrow> cell_in inp i j = HIGH"
  shows "sink (added s (loop inp s)) = tap inp s \<and>
         previousKey (loop inp s) = previousKey s \<and>
         currentKey (loop inp s) = currentKey s \<and>
         count (loop inp s) = count s \<and>
         idlecount (loop inp s) = (idlecount s + 43) mod 2 ^ 32 \<and>
         sink (added s' (column_body inp' modifier' i' j' s')) \<in>
           {[], [ReleaseAll],
            modifier_hold modifier' @ [Press (Code (keyat i' j')), Delay KBD_DELAY, ReleaseAll],
            modifier_hold modifier' @ [Press (Code (keyat i' j')), Delay RPT_DELAY, ReleaseAll]}"
proof -
  from loop_no_key [OF assms, of s]
  obtain evs a where "sink evs = tap inp s"
    "loop inp s =
        s\<lparr>idlecount := (inc_ulong ^^ samples 0 ROWS) (idlecount s), alphaLock := a,
          trace := trace s @ evs\<rparr>"
    by blast
  then have cyc: "sink (added s (loop inp s)) = tap inp s \<and>
         previousKey (loop inp s) = previousKey s \<and>
         currentKey (loop inp s) = currentKey s \<and>
         count (loop inp s) = count s \<and>
         idlecount (loop inp s) = (idlecount s + 43) mod 2 ^ 32"
    by (simp add: samples_all [simplified] inc_ulong_funpow)
  have cell: "sink (added s' (column_body inp' modifier' i' j' s')) \<in>
           {[], [ReleaseAll],
            modifier_hold modifier' @ [Press (Code (keyat i' j')), Delay KBD_DELAY, ReleaseAll],
            modifier_hold modifier' @ [Press (Code (keyat i' j')), Delay RPT_DELAY, ReleaseAll]}"
    apply (cases "cell_in inp' i' j'")
     apply (simp add: column_body_idle)
    apply (cases "fresh i' j' s'")
     apply (simp add: column_body_fresh)
    apply (cases "repeating i' j' s'")
     apply (simp add: column_body_repeat)
    apply (simp add: column_body_sustain)
    done
  from cyc cell show ?thesis by simp
qed

theorem modifier_alone_witness:
  "sink (added init (loop (no_key (\<lambda>c. c \<noteq> SHIFT) HIGH) init)) = [] \<and>
   previousKey (loop (no_key (\<lambda>c. c \<noteq> SHIFT) HIGH) init) = 0 \<and>
   count (loop (no_key (\<lambda>c. c \<noteq> SHIFT) HIGH) init) = 0 \<and>
   idlecount (loop (no_key (\<lambda>c. c \<noteq> SHIFT) HIGH) init) = 43 \<and>
   detected (no_key (\<lambda>c. c \<noteq> SHIFT) HIGH) = SHIFT"
  using modifier_alone [of "no_key (\<lambda>c. c \<noteq> SHIFT) HIGH" init]
  by (simp add: no_key_def init_def tap_def lockAsserted_def detected_def first_asserted_def)

lemma run_snoc: "run (ins @ [inp]) s = loop inp (run ins s)"
  by (induction ins arbitrary: s) simp_all

lemma before_Suc: "n < length ins \<Longrightarrow> before ins s (Suc n) = loop (ins ! n) (before ins s n)"
  by (simp add: before_def take_Suc_conv_app_nth run_snoc)

lemma before_0 [simp]: "before ins s 0 = s"
  by (simp add: before_def)

lemma around_key:
  assumes "i0 < ROWS" and "j0 < columns ! i0"
  shows "samples 0 i0 + j0 + after_key i0 j0 = 42"
  using samples_total [OF assms(1)] assms(2) by (simp add: after_key_def)

lemma cycle_fresh:
  assumes "only_key inp i0 j0" and "i0 < ROWS" and "j0 < columns ! i0"
    and "keyat i0 j0 \<noteq> previousKey s"
  shows "sink (added s (loop inp s)) =
           tap inp s @ modifier_hold (detected inp) @
             [Press (Code (keyat i0 j0)), Delay KBD_DELAY, ReleaseAll]"
    and "previousKey (loop inp s) = keyat i0 j0"
    and "count (loop inp s) = 0"
    and "idlecount (loop inp s) = after_key i0 j0"
proof -
  from loop_one_key [OF assms(1-3), of s]
  obtain e1 e2 a where e: "sink e1 = tap inp s" "sink e2 = []"
    "loop inp s =
       (let X = column_body inp (detected inp) i0 j0
                  (s\<lparr>alphaLock := a,
                     idlecount := (inc_ulong ^^ (samples 0 i0 + j0)) (idlecount s),
                     trace := trace s @ e1\<rparr>)
        in X\<lparr>idlecount :=
               (inc_ulong ^^ (columns ! i0 - Suc j0 + samples (Suc i0) ROWS)) (idlecount X),
             trace := trace X @ e2\<rparr>)"
    by blast
  let ?sc = "s\<lparr>alphaLock := a,
                     idlecount := (inc_ulong ^^ (samples 0 i0 + j0)) (idlecount s),
                     trace := trace s @ e1\<rparr>"
  from assms(1-3) have low: "\<not> cell_in inp i0 j0"
    by (simp add: only_key_iff scanned_def)
  from assms(4) have fr: "fresh i0 j0 ?sc"
    by (simp add: fresh_def)
  have small: "after_key i0 j0 < 2 ^ 32"
    using around_key [OF assms(2,3)] by simp
  have eq: "loop inp s =
     s\<lparr>previousKey := keyat i0 j0, currentKey := keyat i0 j0, count := 0,
       idlecount := after_key i0 j0, alphaLock := a,
       trace := trace s @ e1 @ [DigitalRead (colPins ! j0) False] @ modifier_hold (detected inp) @
         [Press (Code (keyat i0 j0)), Delay KBD_DELAY,
          Println ''Different key or idlecount timeout'', ReleaseAll] @ e2\<rparr>"
    unfolding e(3) column_body_fresh [OF low fr] Let_def
    using inc_ulong_small [of 0 "after_key i0 j0"] small
    by (simp add: after_key_def)
  show "sink (added s (loop inp s)) =
           tap inp s @ modifier_hold (detected inp) @
             [Press (Code (keyat i0 j0)), Delay KBD_DELAY, ReleaseAll]"
    and "previousKey (loop inp s) = keyat i0 j0"
    and "count (loop inp s) = 0"
    and "idlecount (loop inp s) = after_key i0 j0"
    unfolding eq using e(1,2) by simp_all
qed

lemma cycle_sustain:
  assumes "only_key inp i0 j0" and "i0 < ROWS" and "j0 < columns ! i0"
    and "keyat i0 j0 = previousKey s" and "idlecount s + 43 \<le> 10000"
    and "count s < 150"
  shows "sink (added s (loop inp s)) = tap inp s @ [ReleaseAll] \<and>
         previousKey (loop inp s) = keyat i0 j0 \<and>
         count (loop inp s) = count s + 1 \<and>
         idlecount (loop inp s) = idlecount s + 42"
proof -
  from loop_one_key [OF assms(1-3), of s]
  obtain e1 e2 a where e: "sink e1 = tap inp s" "sink e2 = []"
    "loop inp s =
       (let X = column_body inp (detected inp) i0 j0
                  (s\<lparr>alphaLock := a,
                     idlecount := (inc_ulong ^^ (samples 0 i0 + j0)) (idlecount s),
                     trace := trace s @ e1\<rparr>)
        in X\<lparr>idlecount :=
               (inc_ulong ^^ (columns ! i0 - Suc j0 + samples (Suc i0) ROWS)) (idlecount X),
             trace := trace X @ e2\<rparr>)"
    by blast
  let ?sc = "s\<lparr>alphaLock := a,
                     idlecount := (inc_ulong ^^ (samples 0 i0 + j0)) (idlecount s),
                     trace := trace s @ e1\<rparr>"
  from assms(1-3) have low: "\<not> cell_in inp i0 j0"
    by (simp add: only_key_iff scanned_def)
  note ak = around_key [OF assms(2,3)]
  have pre: "(inc_ulong ^^ (samples 0 i0 + j0)) (idlecount s) = idlecount s + (samples 0 i0 + j0)"
    using ak assms(5) by (intro inc_ulong_small) simp
  have nf: "\<not> fresh i0 j0 ?sc"
    using assms(4,5) ak by (simp add: fresh_def pre)
  have inc: "inc_int (count s) = count s + 1"
    using assms(6) by (simp add: inc_int_def)
  have nr: "\<not> repeating i0 j0 ?sc"
    using assms(6) by (simp add: repeating_def inc)
  have post: "(inc_ulong ^^ after_key i0 j0) (idlecount s + (samples 0 i0 + j0)) = idlecount s + 42"
  proof -
    have "(inc_ulong ^^ after_key i0 j0) (idlecount s + (samples 0 i0 + j0)) =
          idlecount s + (samples 0 i0 + j0) + after_key i0 j0"
      using ak assms(5) by (intro inc_ulong_small) simp
    with ak show ?thesis by simp
  qed
  have eq: "loop inp s =
         s\<lparr>previousKey := keyat i0 j0, currentKey := keyat i0 j0, count := count s + 1,
           idlecount := idlecount s + 42, alphaLock := a,
           trace := trace s @ e1 @ [DigitalRead (colPins ! j0) False, ReleaseAll] @ e2\<rparr>"
    unfolding e(3) column_body_sustain [OF low nf nr] Let_def
    using post by (simp add: after_key_def pre inc)
  show ?thesis
    unfolding eq using e(1,2) by simp
qed

lemma cycle_repeat:
  assumes "only_key inp i0 j0" and "i0 < ROWS" and "j0 < columns ! i0"
    and "keyat i0 j0 = previousKey s" and "idlecount s + 43 \<le> 10000"
    and "count s = 150"
  shows "sink (added s (loop inp s)) =
           tap inp s @ modifier_hold (detected inp) @
             [Press (Code (keyat i0 j0)), Delay RPT_DELAY, ReleaseAll] \<and>
         previousKey (loop inp s) = keyat i0 j0 \<and>
         count (loop inp s) = 151 \<and>
         idlecount (loop inp s) = after_key i0 j0"
proof -
  from loop_one_key [OF assms(1-3), of s]
  obtain e1 e2 a where e: "sink e1 = tap inp s" "sink e2 = []"
    "loop inp s =
       (let X = column_body inp (detected inp) i0 j0
                  (s\<lparr>alphaLock := a,
                     idlecount := (inc_ulong ^^ (samples 0 i0 + j0)) (idlecount s),
                     trace := trace s @ e1\<rparr>)
        in X\<lparr>idlecount :=
               (inc_ulong ^^ (columns ! i0 - Suc j0 + samples (Suc i0) ROWS)) (idlecount X),
             trace := trace X @ e2\<rparr>)"
    by blast
  let ?sc = "s\<lparr>alphaLock := a,
                     idlecount := (inc_ulong ^^ (samples 0 i0 + j0)) (idlecount s),
                     trace := trace s @ e1\<rparr>"
  from assms(1-3) have low: "\<not> cell_in inp i0 j0"
    by (simp add: only_key_iff scanned_def)
  note ak = around_key [OF assms(2,3)]
  have pre: "(inc_ulong ^^ (samples 0 i0 + j0)) (idlecount s) = idlecount s + (samples 0 i0 + j0)"
    using ak assms(5) by (intro inc_ulong_small) simp
  have nf: "\<not> fresh i0 j0 ?sc"
    using assms(4,5) ak by (simp add: fresh_def pre)
  have inc: "inc_int (count s) = 151"
    using assms(6) by (simp add: inc_int_def)
  have r: "repeating i0 j0 ?sc"
    using nf by (simp add: repeating_def inc)
  have post: "(inc_ulong ^^ after_key i0 j0) 0 = after_key i0 j0"
    using ak inc_ulong_small [of 0 "after_key i0 j0"] by simp
  have eq: "loop inp s =
         s\<lparr>previousKey := keyat i0 j0, currentKey := keyat i0 j0, count := 151,
           idlecount := after_key i0 j0, alphaLock := a,
           trace := trace s @ e1 @ [DigitalRead (colPins ! j0) False] @
             modifier_hold (detected inp) @
             [Press (Code (keyat i0 j0)), Delay RPT_DELAY, Println ''Key repeat'', ReleaseAll] @
             e2\<rparr>"
    unfolding e(3) column_body_repeat [OF low r] Let_def
    using post by (simp add: after_key_def inc)
  show ?thesis
    unfolding eq using e(1,2) by simp
qed

lemma held_invariant:
  assumes "i0 < ROWS" and "j0 < columns ! i0"
    and "\<forall>inp\<in>set ins. only_key inp i0 j0"
    and "previousKey s \<noteq> keyat i0 j0"
    and "n \<le> 150" and "n < length ins"
  shows "previousKey (before ins s (Suc n)) = keyat i0 j0 \<and>
         count (before ins s (Suc n)) = int n \<and>
         idlecount (before ins s (Suc n)) = after_key i0 j0 + 42 * n"
  using assms(5,6)
proof (induction n)
  case 0
  then have "only_key (ins ! 0) i0 j0"
    using assms(3) by simp
  from cycle_fresh [OF this assms(1,2), of s] assms(4) 0 show ?case
    by (simp add: before_Suc)
next
  case (Suc n)
  then have IH: "previousKey (before ins s (Suc n)) = keyat i0 j0"
    "count (before ins s (Suc n)) = int n"
    "idlecount (before ins s (Suc n)) = after_key i0 j0 + 42 * n"
    by simp_all
  from Suc.prems have ok: "only_key (ins ! Suc n) i0 j0"
    using assms(3) by simp
  have "after_key i0 j0 \<le> 42"
    using around_key [OF assms(1,2)] by simp
  with Suc.prems IH have small: "idlecount (before ins s (Suc n)) + 43 \<le> 10000"
    by simp
  from Suc.prems IH have lt: "count (before ins s (Suc n)) < 150"
    by simp
  from cycle_sustain [OF ok assms(1,2) IH(1) [symmetric] small lt] IH Suc.prems
  show ?case
    by (simp add: before_Suc [of "Suc n"])
qed

lemma column_body_alphaLock: "alphaLock (column_body inp modifier i j s) = alphaLock s"
  apply (cases "cell_in inp i j")
   apply (simp add: column_body_idle)
  apply (cases "fresh i j s")
   apply (simp add: column_body_fresh)
  apply (cases "repeating i j s")
   apply (simp add: column_body_repeat)
  apply (simp add: column_body_sustain)
  done

lemma cols_loop_alphaLock: "alphaLock (cols_loop inp modifier i j s) = alphaLock s"
proof (induction inp modifier i j s rule: cols_loop.induct)
  case (1 inp modifier i j s)
  show ?case
  proof (cases "j < columns ! i")
    case True
    with 1 show ?thesis
      by (subst cols_loop.simps) (simp add: column_body_alphaLock)
  next
    case False
    then show ?thesis
      by (subst cols_loop.simps) simp
  qed
qed

lemma rows_loop_alphaLock: "alphaLock (rows_loop inp modifier p i s) = alphaLock s"
proof (induction inp modifier p i s rule: rows_loop.induct)
  case (1 inp modifier p i s)
  show ?case
  proof (cases "i < ROWS")
    case True
    with 1 show ?thesis
      by (subst rows_loop.simps) (simp add: cols_loop_alphaLock scan_row_eq)
  next
    case False
    then show ?thesis
      by (subst rows_loop.simps) simp
  qed
qed

lemma loop_lockAsserted:
  assumes "enable_in inp = HIGH"
  shows "lockAsserted (loop inp s) = (lock_in inp = LOW)"
proof -
  obtain m s1 where m: "modifierPressed inp (digitalRead enablePin HIGH s) = (m, s1)"
    by (cases "modifierPressed inp (digitalRead enablePin HIGH s)")
  have "lockAsserted (checkAlphaLock inp s1) = (lock_in inp = LOW)"
    by (simp add: checkAlphaLock_def disable_lastrow_def prims lockAsserted_def Let_def)
  then show ?thesis
    using assms m by (simp add: loop_def lockAsserted_def rows_loop_alphaLock)
qed

text \<open>
  Claim C2. Take 152 enabled cycles in which exactly one cell reads asserted, starting in a
  state whose \<open>previousKey\<close> is another key. Cycle 0 emits the fresh press (hold of
  \<open>KBD_DELAY\<close>) and leaves \<open>count = 0\<close>. In each of the cycles 1 to 150 the scan
  sends \<open>releaseAll\<close> only, and \<open>count\<close> is the number of the cycle. Cycle 151, where
  \<open>count\<close> passes 150, emits the key once more, once, with a hold of \<open>RPT_DELAY\<close>.
  (\<open>tap\<close> is the lock detector's tap of the cycle, empty while the lock switch rests.)
\<close>

theorem typematic_repeat:
  assumes "i0 < ROWS" and "j0 < columns ! i0"
    and "length ins = 152" and "\<forall>inp\<in>set ins. only_key inp i0 j0"
    and "previousKey s \<noteq> keyat i0 j0"
  shows "sink (cycle ins s 0) =
           tap (ins ! 0) s @ modifier_hold (detected (ins ! 0)) @
             [Press (Code (keyat i0 j0)), Delay KBD_DELAY, ReleaseAll] \<and>
         count (before ins s 1) = 0 \<and>
         (\<forall>n. 1 \<le> n \<and> n \<le> 150 \<longrightarrow>
            sink (cycle ins s n) = tap (ins ! n) (before ins s n) @ [ReleaseAll] \<and>
            count (before ins s (Suc n)) = int n) \<and>
         sink (cycle ins s 151) =
           tap (ins ! 151) (before ins s 151) @ modifier_hold (detected (ins ! 151)) @
             [Press (Code (keyat i0 j0)), Delay RPT_DELAY, ReleaseAll] \<and>
         count (before ins s 152) = 151"
proof -
  note inv = held_invariant [OF assms(1,2,4,5)]
  have ok: "only_key (ins ! n) i0 j0" if "n < 152" for n
    using assms(3,4) that by simp
  have bound: "after_key i0 j0 \<le> 42"
    using around_key [OF assms(1,2)] by simp
  have first: "sink (cycle ins s 0) =
           tap (ins ! 0) s @ modifier_hold (detected (ins ! 0)) @
             [Press (Code (keyat i0 j0)), Delay KBD_DELAY, ReleaseAll]"
    using cycle_fresh(1) [OF ok assms(1,2), of 0 s] assms(5)
    by (simp add: cycle_def)
  have first_count: "count (before ins s 1) = 0"
    using inv [of 0] assms(3) by simp
  have held: "sink (cycle ins s n) = tap (ins ! n) (before ins s n) @ [ReleaseAll] \<and>
            count (before ins s (Suc n)) = int n" if "1 \<le> n" "n \<le> 150" for n
  proof -
    from that obtain m where n: "n = Suc m" by (cases n) simp_all
    from inv [of m] that n assms(3)
    have st: "previousKey (before ins s n) = keyat i0 j0"
      "count (before ins s n) = int m"
      "idlecount (before ins s n) = after_key i0 j0 + 42 * m"
      by simp_all
    from st that n bound have small: "idlecount (before ins s n) + 43 \<le> 10000" by simp
    from st that n have lt: "count (before ins s n) < 150" by simp
    from that have "n < 152" by simp
    from cycle_sustain [OF ok [OF this] assms(1,2) st(1) [symmetric] small lt]
    have "sink (cycle ins s n) = tap (ins ! n) (before ins s n) @ [ReleaseAll]"
      by (simp add: cycle_def)
    moreover from inv [of n] that assms(3) have "count (before ins s (Suc n)) = int n"
      by simp
    ultimately show ?thesis by simp
  qed
  from inv [of 150] assms(3)
  have st: "previousKey (before ins s 151) = keyat i0 j0"
    "count (before ins s 151) = 150"
    "idlecount (before ins s 151) = after_key i0 j0 + 42 * 150"
    by simp_all
  from st bound have small: "idlecount (before ins s 151) + 43 \<le> 10000" by simp
  have "(151::nat) < 152" by simp
  note rep = cycle_repeat [OF ok [OF this] assms(1,2) st(1) [symmetric] small st(2)]
  from rep have last: "sink (cycle ins s 151) =
           tap (ins ! 151) (before ins s 151) @ modifier_hold (detected (ins ! 151)) @
             [Press (Code (keyat i0 j0)), Delay RPT_DELAY, ReleaseAll]"
    by (simp add: cycle_def)
  have "before ins s 152 = loop (ins ! 151) (before ins s 151)"
    using before_Suc [of 151 ins s] assms(3) by simp
  with rep have last_count: "count (before ins s 152) = 151" by simp
  from first first_count held last last_count show ?thesis by blast
qed

theorem typematic_repeat_witness:
  "sink (cycle (replicate 152 (one_key 0 6)) init 0) =
     [Press (Code 113), Delay 150, ReleaseAll] \<and>
   sink (cycle (replicate 152 (one_key 0 6)) init 75) = [ReleaseAll] \<and>
   count (before (replicate 152 (one_key 0 6)) init 76) = 75 \<and>
   sink (cycle (replicate 152 (one_key 0 6)) init 150) = [ReleaseAll] \<and>
   sink (cycle (replicate 152 (one_key 0 6)) init 151) =
     [Press (Code 113), Delay 50, ReleaseAll]"
proof -
  let ?ins = "replicate 152 (one_key 0 6)"
  have ok: "only_key (one_key 0 6) 0 6"
    by (simp add: only_key_iff one_key_def scanned_def)
  have key: "keyat 0 6 = 113"
    by (simp add: keyat_def keys_def)
  have none: "detected (one_key 0 6) = 0"
    by (simp add: detected_def first_asserted_def one_key_def)
  have t0: "tap (one_key 0 6) init = []"
    by (simp add: tap_def one_key_def init_def lockAsserted_def)
  have tn: "tap (one_key 0 6) (before ?ins init (Suc n)) = []" if "n < 152" for n
  proof -
    have "before ?ins init (Suc n) = loop (one_key 0 6) (before ?ins init n)"
      using that by (simp add: before_Suc)
    moreover have "enable_in (one_key 0 6) = HIGH" "lock_in (one_key 0 6) = HIGH"
      by (simp_all add: one_key_def)
    ultimately show ?thesis
      by (simp add: tap_def loop_lockAsserted)
  qed
  from typematic_repeat [of 0 6 ?ins init] ok key
  have *: "sink (cycle ?ins init 0) =
           tap (?ins ! 0) init @ modifier_hold (detected (?ins ! 0)) @
             [Press (Code 113), Delay KBD_DELAY, ReleaseAll] \<and>
         count (before ?ins init 1) = 0 \<and>
         (\<forall>n. 1 \<le> n \<and> n \<le> 150 \<longrightarrow>
            sink (cycle ?ins init n) = tap (?ins ! n) (before ?ins init n) @ [ReleaseAll] \<and>
            count (before ?ins init (Suc n)) = int n) \<and>
         sink (cycle ?ins init 151) =
           tap (?ins ! 151) (before ?ins init 151) @ modifier_hold (detected (?ins ! 151)) @
             [Press (Code 113), Delay RPT_DELAY, ReleaseAll] \<and>
         count (before ?ins init 152) = 151"
    by (simp add: columns_def init_def)
  from * have a: "sink (cycle ?ins init 0) = [Press (Code 113), Delay 150, ReleaseAll]"
    by (simp add: none t0)
  from * tn [of 74] have b: "sink (cycle ?ins init 75) = [ReleaseAll] \<and>
     count (before ?ins init (Suc 75)) = int 75"
    by (elim conjE allE [of _ 75]) simp
  from * tn [of 149] have c: "sink (cycle ?ins init 150) = [ReleaseAll]"
    by (elim conjE allE [of _ 150]) simp
  from * tn [of 150] have d: "sink (cycle ?ins init 151) =
       [Press (Code 113), Delay 50, ReleaseAll]"
    by (simp add: none)
  from a b c d show ?thesis by simp
qed

subsection \<open>Pin directions and the order of the library calls\<close>

lemma step_mode_skip: "\<not> is_pinmode e \<Longrightarrow> step_mode m e = m"
  by (cases e) simp_all

lemma foldl_step_filter: "foldl step_mode m tr = foldl step_mode m (filter is_pinmode tr)"
  by (induction tr arbitrary: m) (simp_all add: step_mode_skip)

lemma pin_modes_append: "pin_modes (tr @ evs) = foldl step_mode (pin_modes tr) evs"
  by (simp add: pin_modes_def)

lemma ok_run_take: "ok_run m evs \<Longrightarrow> pins_ok (foldl step_mode m (take k evs))"
proof (induction evs arbitrary: m k)
  case Nil
  then show ?case by simp
next
  case (Cons e es)
  then show ?case by (cases k) simp_all
qed

lemma filter_take_ex: "\<exists>k. filter P (take n xs) = take k (filter P xs)"
proof (induction xs arbitrary: n)
  case Nil
  then show ?case by simp
next
  case (Cons x xs)
  show ?case
  proof (cases n)
    case 0
    then show ?thesis by (intro exI [of _ 0]) simp
  next
    case (Suc n')
    from Cons [of n'] obtain k where k: "filter P (take n' xs) = take k (filter P xs)" ..
    show ?thesis
    proof (cases "P x")
      case True
      with k Suc show ?thesis by (intro exI [of _ "Suc k"]) simp
    next
      case False
      with k Suc show ?thesis by (intro exI [of _ k]) simp
    qed
  qed
qed

lemma safe_extension:
  assumes "ok_run (pin_modes tr) (filter is_pinmode evs)" and "length tr \<le> n"
  shows "length (driven (take n (tr @ evs))) \<le> 1"
proof -
  from assms(2) have "take n (tr @ evs) = tr @ take (n - length tr) evs"
    by simp
  moreover obtain k where
    "filter is_pinmode (take (n - length tr) evs) = take k (filter is_pinmode evs)"
    using filter_take_ex by blast
  ultimately have "pin_modes (take n (tr @ evs)) =
      foldl step_mode (pin_modes tr) (take k (filter is_pinmode evs))"
    by (simp add: pin_modes_append foldl_step_filter [of _ "take (n - length tr) evs"])
  with ok_run_take [OF assms(1), of k] show ?thesis
    by (simp add: driven_def pins_ok_def)
qed

lemma pins_from_all: "pins_from (ROWS - 1) 0 =
  [PinMode A0 INPUT, PinMode 9 OUTPUT, PinMode 9 INPUT, PinMode A1 OUTPUT,
   PinMode A1 INPUT, PinMode A2 OUTPUT, PinMode A2 INPUT, PinMode A3 OUTPUT,
   PinMode A3 INPUT, PinMode 10 OUTPUT, PinMode 10 INPUT, PinMode A0 OUTPUT]"
  by (simp add: pins_from_def rowPins_def upt_rec)

lemma cycle_pins_ok:
  assumes "last_only m"
  shows "ok_run m ([PinMode A0 INPUT, PinMode alphaLockRowPin OUTPUT,
            PinMode alphaLockRowPin INPUT_PULLUP] @ pins_from (ROWS - 1) 0)"
    and "last_only (foldl step_mode m ([PinMode A0 INPUT, PinMode alphaLockRowPin OUTPUT,
            PinMode alphaLockRowPin INPUT_PULLUP] @ pins_from (ROWS - 1) 0))"
  using assms unfolding pins_from_all
  by (simp_all add: last_only_def pins_ok_def row_lines_def rowPins_def)

lemma pinmode_modifier_hold [simp]: "filter is_pinmode (modifier_hold m) = []"
  by (simp add: modifier_hold_def)

lemma column_body_added:
  "\<exists>evs. filter is_pinmode evs = [] \<and> trace (column_body inp modifier i j s) = trace s @ evs"
  apply (cases "cell_in inp i j")
   apply (simp add: column_body_idle)
  apply (cases "fresh i j s")
   apply (simp add: column_body_fresh)
  apply (cases "repeating i j s")
   apply (simp add: column_body_repeat)
  apply (simp add: column_body_sustain)
  done

lemma cols_loop_added:
  "\<exists>evs. filter is_pinmode evs = [] \<and> trace (cols_loop inp modifier i j s) = trace s @ evs"
proof (induction inp modifier i j s rule: cols_loop.induct)
  case (1 inp modifier i j s)
  show ?case
  proof (cases "j < columns ! i")
    case True
    obtain a where a: "filter is_pinmode a = []"
      "trace (column_body inp modifier i j s) = trace s @ a"
      using column_body_added by blast
    from 1 [OF True] obtain b where b: "filter is_pinmode b = []"
      "trace (cols_loop inp modifier i (j + 1) (column_body inp modifier i j s)) =
       trace (column_body inp modifier i j s) @ b"
      by blast
    have "filter is_pinmode (a @ b) = [] \<and>
       trace (cols_loop inp modifier i j s) = trace s @ (a @ b)"
      using True a b by (subst cols_loop.simps) simp
    then show ?thesis by (rule exI)
  next
    case False
    then show ?thesis
      by (subst cols_loop.simps) simp
  qed
qed

lemma pins_from_step:
  assumes "i < ROWS"
  shows "pins_from p i =
     [PinMode (rowPins ! p) INPUT, PinMode (rowPins ! i) OUTPUT] @ pins_from i (Suc i)"
proof -
  have "[i..<ROWS] = i # [Suc i..<ROWS]"
    using assms by (rule upt_conv_Cons)
  then have "pins_from p i =
      [PinMode (rowPins ! p) INPUT, PinMode (rowPins ! i) OUTPUT] @
      concat (map (\<lambda>r. [PinMode (rowPins ! (if r = i then p else r - 1)) INPUT,
                        PinMode (rowPins ! r) OUTPUT]) [Suc i..<ROWS])"
    unfolding pins_from_def by (simp only: list.map concat.simps simp_thms if_True append.simps)
  also have "concat (map (\<lambda>r. [PinMode (rowPins ! (if r = i then p else r - 1)) INPUT,
                        PinMode (rowPins ! r) OUTPUT]) [Suc i..<ROWS]) = pins_from i (Suc i)"
    unfolding pins_from_def
    by (rule arg_cong [where f = concat], rule map_cong) auto
  finally show ?thesis .
qed

lemma pins_from_done: "\<not> i < ROWS \<Longrightarrow> pins_from p i = []"
  by (simp add: pins_from_def)

lemma rows_loop_added:
  "\<exists>R. filter is_pinmode R = pins_from p i \<and>
     trace (rows_loop inp modifier p i s) = trace s @ R"
proof (induction inp modifier p i s rule: rows_loop.induct)
  case (1 inp modifier p i s)
  show ?case
  proof (cases "i < ROWS")
    case True
    let ?s1 = "scan_row p i s"
    obtain a where a: "filter is_pinmode a = []"
      "trace (cols_loop inp modifier i 0 ?s1) = trace ?s1 @ a"
      using cols_loop_added by blast
    from 1 [OF True] obtain b where b: "filter is_pinmode b = pins_from i (i + 1)"
      "trace (rows_loop inp modifier i (i + 1) (cols_loop inp modifier i 0 ?s1)) =
       trace (cols_loop inp modifier i 0 ?s1) @ b"
      by blast
    let ?R = "[PinMode (rowPins ! p) INPUT, PinMode (rowPins ! i) OUTPUT,
        DigitalWrite (rowPins ! i) LOW] @ a @ b"
    have "filter is_pinmode ?R = pins_from p i \<and>
       trace (rows_loop inp modifier p i s) = trace s @ ?R"
      using True a b pins_from_step [OF True, of p]
      by (subst rows_loop.simps) (simp add: scan_row_eq)
    then show ?thesis by (rule exI)
  next
    case False
    then show ?thesis
      by (subst rows_loop.simps) (simp add: pins_from_done)
  qed
qed

lemma loop_added:
  assumes "enable_in inp = HIGH"
  shows "\<exists>M T R. added s (loop inp s) = [DigitalRead enablePin HIGH] @ M @ probe inp @ T @ R \<and>
      trace (loop inp s) = trace s @ added s (loop inp s) \<and>
      (\<forall>e\<in>set M. is_read e) \<and> (\<forall>e\<in>set T. is_tap e) \<and>
      filter is_pinmode R = pins_from (ROWS - 1) 0"
proof -
  from loop_enabled [OF assms, of s]
  obtain M T a where MT: "\<forall>e\<in>set M. is_read e" "\<forall>e\<in>set T. is_tap e"
      "loop inp s =
        rows_loop inp (first_asserted (\<lambda>c. mod_in inp c = LOW)) (ROWS - 1) 0
          (s\<lparr>alphaLock := a,
             trace := trace s @ [DigitalRead enablePin HIGH] @ M @ probe inp @ T\<rparr>)"
    by blast
  let ?s2 = "s\<lparr>alphaLock := a,
             trace := trace s @ [DigitalRead enablePin HIGH] @ M @ probe inp @ T\<rparr>"
  obtain R where R: "filter is_pinmode R = pins_from (ROWS - 1) 0"
    "trace (rows_loop inp (first_asserted (\<lambda>c. mod_in inp c = LOW)) (ROWS - 1) 0 ?s2) =
     trace ?s2 @ R"
    using rows_loop_added by blast
  have tr: "trace (loop inp s) =
      trace s @ [DigitalRead enablePin HIGH] @ M @ probe inp @ T @ R"
    unfolding MT(3) R(2) by simp
  then have "added s (loop inp s) = [DigitalRead enablePin HIGH] @ M @ probe inp @ T @ R"
    by (rule added_append)
  with tr MT(1,2) R(1) show ?thesis by auto
qed

lemma first_index_skip: "e \<notin> set xs \<Longrightarrow> first_index e (xs @ ys) = length xs + first_index e ys"
  by (induction xs) (auto simp add: first_index_def)

lemma first_index_hit [simp]: "first_index e (e # ys) = 0"
  by (simp add: first_index_def)

lemma first_index_Cons: "x \<noteq> e \<Longrightarrow> first_index e (x # ys) = Suc (first_index e ys)"
  by (simp add: first_index_def)

lemma first_index_less: "e \<in> set xs \<Longrightarrow> first_index e xs < length xs"
  by (induction xs) (auto simp add: first_index_def)

lemma row_activation_in_pass:
  "r < ROWS \<Longrightarrow> PinMode (rowPins ! r) OUTPUT \<in> set (pins_from (ROWS - 1) 0)"
  unfolding pins_from_all by (auto simp add: rowPins_def less_Suc_eq numeral_eq_Suc)

lemma row_pin_not_lock: "r < ROWS \<Longrightarrow> rowPins ! r \<noteq> alphaLockRowPin"
  by (auto simp add: rowPins_def less_Suc_eq numeral_eq_Suc)

lemma probe_precedes_rows:
  assumes "enable_in inp = HIGH" and "r < ROWS"
  shows "first_index (PinMode alphaLockRowPin OUTPUT) (added s (loop inp s)) <
           first_index (PinMode (rowPins ! r) OUTPUT) (added s (loop inp s)) \<and>
         first_index (PinMode (rowPins ! r) OUTPUT) (added s (loop inp s)) <
           length (added s (loop inp s))"
proof -
  from loop_added [OF assms(1), of s]
  obtain M T R where ev: "added s (loop inp s) =
        [DigitalRead enablePin HIGH] @ M @ probe inp @ T @ R"
    and M: "\<forall>e\<in>set M. is_read e" and T: "\<forall>e\<in>set T. is_tap e"
    and R: "filter is_pinmode R = pins_from (ROWS - 1) 0"
    by blast
  let ?lock = "PinMode alphaLockRowPin OUTPUT"
  let ?row = "PinMode (rowPins ! r) OUTPUT"
  have lockM: "?lock \<notin> set M" and rowM: "?row \<notin> set M"
    using M by (auto dest: bspec)
  have rowT: "?row \<notin> set T"
    using T by (auto dest: bspec)
  have ne: "rowPins ! r \<noteq> alphaLockRowPin"
    using assms(2) by (rule row_pin_not_lock)
  have "?row \<in> set (filter is_pinmode R)"
    unfolding R using assms(2) by (rule row_activation_in_pass)
  then have rowR: "?row \<in> set R" by simp
  have lock: "first_index ?lock (added s (loop inp s)) = Suc (length M) + 1"
    unfolding ev using lockM
    by (simp add: first_index_Cons first_index_skip probe_def)
  have notin: "?row \<notin> set ([DigitalRead enablePin HIGH] @ M @ probe inp @ T)"
    using rowM rowT ne by (simp add: probe_def)
  have row: "first_index ?row (added s (loop inp s)) =
      length ([DigitalRead enablePin HIGH] @ M @ probe inp @ T) + first_index ?row R"
    unfolding ev using first_index_skip [OF notin, of R] by simp
  have len: "length (added s (loop inp s)) =
      length ([DigitalRead enablePin HIGH] @ M @ probe inp @ T) + length R"
    unfolding ev by simp
  from first_index_less [OF rowR] lock row len show ?thesis
    by (simp add: probe_def)
qed

lemma setup_ino_eq:
  "setup_ino s = s\<lparr>trace := trace s @
     [PinMode 13 INPUT_PULLUP,
      PinMode 6 INPUT_PULLUP, PinMode 5 INPUT_PULLUP, PinMode 2 INPUT_PULLUP,
      PinMode 3 INPUT_PULLUP, PinMode 12 INPUT_PULLUP, PinMode 4 INPUT_PULLUP,
      PinMode 11 INPUT_PULLUP, PinMode 8 INPUT_PULLUP,
      PinMode 9 INPUT, PinMode 19 INPUT, PinMode 20 INPUT, PinMode 21 INPUT,
      PinMode 10 INPUT, PinMode 18 INPUT,
      PinMode 7 INPUT_PULLUP,
      PinMode 18 OUTPUT, DigitalWrite 18 False, KeyboardBegin, SerialBegin 9600]\<rparr>"
  by (simp add: setup_ino_def setup_pins_def prims rowPins_def colPins_def upt_rec)

lemma setup_trace:
  "trace (setup_ino s) = trace s @
     [PinMode 13 INPUT_PULLUP,
      PinMode 6 INPUT_PULLUP, PinMode 5 INPUT_PULLUP, PinMode 2 INPUT_PULLUP,
      PinMode 3 INPUT_PULLUP, PinMode 12 INPUT_PULLUP, PinMode 4 INPUT_PULLUP,
      PinMode 11 INPUT_PULLUP, PinMode 8 INPUT_PULLUP,
      PinMode 9 INPUT, PinMode 19 INPUT, PinMode 20 INPUT, PinMode 21 INPUT,
      PinMode 10 INPUT, PinMode 18 INPUT,
      PinMode 7 INPUT_PULLUP,
      PinMode 18 OUTPUT, DigitalWrite 18 False, KeyboardBegin, SerialBegin 9600]"
  by (simp add: setup_ino_eq)

lemma setup_ready: "ready (setup_ino s)"
  unfolding ready_def setup_trace
  by (simp add: pin_modes_append last_only_def row_lines_def rowPins_def)

lemma rows_loop_first:
  assumes "i < ROWS"
  shows "\<exists>rest. trace (rows_loop inp modifier p i s) =
      trace s @ [PinMode (rowPins ! p) INPUT, PinMode (rowPins ! i) OUTPUT,
                 DigitalWrite (rowPins ! i) LOW] @ rest"
proof -
  let ?s1 = "scan_row p i s"
  obtain a where a: "trace (cols_loop inp modifier i 0 ?s1) = trace ?s1 @ a"
    using cols_loop_added by blast
  obtain b where b: "trace (rows_loop inp modifier i (i + 1) (cols_loop inp modifier i 0 ?s1)) =
       trace (cols_loop inp modifier i 0 ?s1) @ b"
    using rows_loop_added by blast
  have "trace (rows_loop inp modifier p i s) =
      trace s @ [PinMode (rowPins ! p) INPUT, PinMode (rowPins ! i) OUTPUT,
                 DigitalWrite (rowPins ! i) LOW] @ (a @ b)"
    using assms a b by (subst rows_loop.simps) (simp add: scan_row_eq)
  then show ?thesis by (rule exI)
qed

lemma first_cycle_start:
  "\<exists>rest. added (setup_ino init) (loop (no_key (\<lambda>c. HIGH) HIGH) (setup_ino init)) =
     [DigitalRead 13 True, DigitalRead 4 True, DigitalRead 11 True, DigitalRead 8 True,
      PinMode 18 INPUT, PinMode 7 OUTPUT, DigitalWrite 7 False, DigitalRead 8 True,
      PinMode 7 INPUT_PULLUP, PinMode 18 INPUT, PinMode 9 OUTPUT, DigitalWrite 9 False] @ rest"
proof -
  let ?inp = "no_key (\<lambda>c. HIGH) HIGH"
  let ?s0 = "setup_ino init"
  let ?s2 = "?s0\<lparr>trace := trace ?s0 @
     [DigitalRead 13 True, DigitalRead 4 True, DigitalRead 11 True, DigitalRead 8 True,
      PinMode 18 INPUT, PinMode 7 OUTPUT, DigitalWrite 7 False, DigitalRead 8 True,
      PinMode 7 INPUT_PULLUP]\<rparr>"
  have al: "alphaLock ?s0 = 0"
    by (simp add: setup_ino_eq init_def)
  have "loop ?inp ?s0 = rows_loop ?inp 0 (ROWS - 1) 0 ?s2"
    using al
    by (simp add: loop_def modifierPressed_def checkAlphaLock_def disable_lastrow_def prims
        no_key_def colPins_def rowPins_def)
  moreover obtain rest where "trace (rows_loop ?inp 0 (ROWS - 1) 0 ?s2) =
      trace ?s2 @ [PinMode (rowPins ! (ROWS - 1)) INPUT, PinMode (rowPins ! 0) OUTPUT,
                 DigitalWrite (rowPins ! 0) LOW] @ rest"
    using rows_loop_first [of 0 ?inp 0 "ROWS - 1" ?s2] by auto
  ultimately have "trace (loop ?inp ?s0) = trace ?s0 @
     [DigitalRead 13 True, DigitalRead 4 True, DigitalRead 11 True, DigitalRead 8 True,
      PinMode 18 INPUT, PinMode 7 OUTPUT, DigitalWrite 7 False, DigitalRead 8 True,
      PinMode 7 INPUT_PULLUP, PinMode 18 INPUT, PinMode 9 OUTPUT, DigitalWrite 9 False] @ rest"
    by (simp add: rowPins_def)
  then have "added ?s0 (loop ?inp ?s0) =
     [DigitalRead 13 True, DigitalRead 4 True, DigitalRead 11 True, DigitalRead 8 True,
      PinMode 18 INPUT, PinMode 7 OUTPUT, DigitalWrite 7 False, DigitalRead 8 True,
      PinMode 7 INPUT_PULLUP, PinMode 18 INPUT, PinMode 9 OUTPUT, DigitalWrite 9 False] @ rest"
    by (rule added_append)
  then show ?thesis by (rule exI)
qed

text \<open>
  Claim C3 as stated fails: in the first cycle after \<open>setup\<close>, with nothing pressed,
  the lock line is activated by call 5 of the cycle (counted from 0) and row 0 only by
  call 10.
\<close>

theorem probe_not_after_pass:
  "first_index (PinMode alphaLockRowPin OUTPUT)
     (added (setup_ino init) (loop (no_key (\<lambda>c. HIGH) HIGH) (setup_ino init))) = 5 \<and>
   first_index (PinMode (rowPins ! 0) OUTPUT)
     (added (setup_ino init) (loop (no_key (\<lambda>c. HIGH) HIGH) (setup_ino init))) = 10 \<and>
   \<not> probe_after_pass
       (added (setup_ino init) (loop (no_key (\<lambda>c. HIGH) HIGH) (setup_ino init)))"
proof -
  let ?evs = "added (setup_ino init) (loop (no_key (\<lambda>c. HIGH) HIGH) (setup_ino init))"
  obtain rest where ev: "?evs =
     [DigitalRead 13 True, DigitalRead 4 True, DigitalRead 11 True, DigitalRead 8 True,
      PinMode 18 INPUT, PinMode 7 OUTPUT, DigitalWrite 7 False, DigitalRead 8 True,
      PinMode 7 INPUT_PULLUP, PinMode 18 INPUT, PinMode 9 OUTPUT, DigitalWrite 9 False] @ rest"
    using first_cycle_start by blast
  have a: "first_index (PinMode alphaLockRowPin OUTPUT) ?evs = 5"
    unfolding ev by (simp add: first_index_def)
  have b: "first_index (PinMode (rowPins ! 0) OUTPUT) ?evs = 10"
    unfolding ev by (simp add: first_index_def rowPins_def)
  have "\<not> probe_after_pass ?evs"
    unfolding probe_after_pass_def using a b by (simp add: upt_rec)
  with a b show ?thesis by simp
qed

lemma last_only_ok: "last_only m \<Longrightarrow> pins_ok m"
  by (simp add: last_only_def pins_ok_def row_lines_def rowPins_def)

lemma no_pinmode_reads: "\<forall>e\<in>set M. is_read e \<Longrightarrow> filter is_pinmode M = []"
  by (induction M) (auto elim: is_read.elims)

lemma no_pinmode_taps: "\<forall>e\<in>set T. is_tap e \<Longrightarrow> filter is_pinmode T = []"
  by (induction T) (auto elim: is_tap.elims)

lemma loop_pins:
  "\<exists>evs. trace (loop inp s) = trace s @ evs \<and>
     filter is_pinmode evs =
       (if enable_in inp = HIGH
        then [PinMode A0 INPUT, PinMode alphaLockRowPin OUTPUT,
              PinMode alphaLockRowPin INPUT_PULLUP] @ pins_from (ROWS - 1) 0
        else [])"
proof (cases "enable_in inp = HIGH")
  case True
  from loop_added [OF True, of s]
  obtain M T R where ev: "added s (loop inp s) =
        [DigitalRead enablePin HIGH] @ M @ probe inp @ T @ R"
    and tr: "trace (loop inp s) = trace s @ added s (loop inp s)"
    and M: "\<forall>e\<in>set M. is_read e" and T: "\<forall>e\<in>set T. is_tap e"
    and R: "filter is_pinmode R = pins_from (ROWS - 1) 0"
    by blast
  have "filter is_pinmode (added s (loop inp s)) =
       [PinMode A0 INPUT, PinMode alphaLockRowPin OUTPUT,
              PinMode alphaLockRowPin INPUT_PULLUP] @ pins_from (ROWS - 1) 0"
    unfolding ev using no_pinmode_reads [OF M] no_pinmode_taps [OF T] R
    by (simp add: probe_def rowPins_def)
  with True have "filter is_pinmode (added s (loop inp s)) =
       (if enable_in inp = HIGH
        then [PinMode A0 INPUT, PinMode alphaLockRowPin OUTPUT,
              PinMode alphaLockRowPin INPUT_PULLUP] @ pins_from (ROWS - 1) 0
        else [])"
    by (simp only: if_True simp_thms)
  with tr show ?thesis by blast
next
  case False
  then show ?thesis
    by (intro exI [of _ "[DigitalRead enablePin LOW]"]) (simp add: loop_def prims)
qed

lemma loop_safe:
  assumes "ready s"
  shows "ready (loop inp s)"
    and "length (trace s) \<le> n \<Longrightarrow> length (driven (take n (trace (loop inp s)))) \<le> 1"
    and "\<exists>evs. trace (loop inp s) = trace s @ evs"
proof -
  obtain evs where evs: "trace (loop inp s) = trace s @ evs"
    "filter is_pinmode evs =
       (if enable_in inp = HIGH
        then [PinMode A0 INPUT, PinMode alphaLockRowPin OUTPUT,
              PinMode alphaLockRowPin INPUT_PULLUP] @ pins_from (ROWS - 1) 0
        else [])"
    using loop_pins by blast
  from assms have m: "last_only (pin_modes (trace s))"
    by (simp add: ready_def)
  have ok: "ok_run (pin_modes (trace s)) (filter is_pinmode evs)"
    unfolding evs(2) using cycle_pins_ok(1) [OF m] last_only_ok [OF m] by simp
  have "pin_modes (trace (loop inp s)) =
      foldl step_mode (pin_modes (trace s)) (filter is_pinmode evs)"
    unfolding evs(1) by (simp add: pin_modes_append foldl_step_filter [of _ evs])
  then show "ready (loop inp s)"
    unfolding ready_def evs(2) using cycle_pins_ok(2) [OF m] m by simp
  show "length (driven (take n (trace (loop inp s)))) \<le> 1" if "length (trace s) \<le> n"
    unfolding evs(1) using ok that by (rule safe_extension)
  show "\<exists>evs. trace (loop inp s) = trace s @ evs"
    using evs(1) by blast
qed

lemma run_extends: "ready s \<Longrightarrow> \<exists>evs. trace (run ins s) = trace s @ evs"
proof (induction ins arbitrary: s)
  case Nil
  then show ?case by simp
next
  case (Cons inp ins)
  from loop_safe(3) [OF Cons.prems, of inp]
  obtain a where a: "trace (loop inp s) = trace s @ a" by blast
  from Cons.IH [OF loop_safe(1) [OF Cons.prems], of inp]
  obtain b where b: "trace (run ins (loop inp s)) = trace (loop inp s) @ b" by blast
  have "trace (run (inp # ins) s) = trace s @ (a @ b)"
    using a b by simp
  then show ?case by (rule exI)
qed

lemma run_safe:
  "ready s \<Longrightarrow> length (trace s) \<le> n \<Longrightarrow> length (driven (take n (trace (run ins s)))) \<le> 1"
proof (induction ins arbitrary: s)
  case Nil
  from Nil have "pins_ok (pin_modes (trace s))"
    by (simp add: ready_def last_only_ok)
  with Nil show ?case
    by (simp add: driven_def pins_ok_def)
next
  case (Cons inp ins)
  note r = loop_safe(1) [OF Cons.prems(1), of inp]
  show ?case
  proof (cases "length (trace (loop inp s)) \<le> n")
    case True
    from Cons.IH [OF r True] show ?thesis by simp
  next
    case False
    from run_extends [OF r, of ins]
    obtain b where b: "trace (run ins (loop inp s)) = trace (loop inp s) @ b" by blast
    from False have "take n (trace (run (inp # ins) s)) = take n (trace (loop inp s))"
      by (simp add: b)
    with loop_safe(2) [OF Cons.prems(1,2), of inp] show ?thesis by simp
  qed
qed

text \<open>
  Claim C7. At every instant after \<open>setup\<close>, through any number of cycles with any
  inputs, at most one of the six row lines and the lock line is an output. \<open>scan_row\<close>
  returns the previous row to input before it drives the current one, and
  \<open>checkAlphaLock\<close> returns the last row to input before it drives the lock line.
\<close>

theorem single_row_driven:
  "length (trace (setup_ino s)) \<le> n \<Longrightarrow>
   length (driven (take n (trace (run ins (setup_ino s))))) \<le> 1 \<and>
   added s' (scan_row p i s') =
     [PinMode (rowPins ! p) INPUT, PinMode (rowPins ! i) OUTPUT, DigitalWrite (rowPins ! i) LOW] \<and>
   take 2 (added s' (checkAlphaLock inp s')) =
     [PinMode (rowPins ! (ROWS - 1)) INPUT, PinMode alphaLockRowPin OUTPUT]"
proof -
  assume n: "length (trace (setup_ino s)) \<le> n"
  obtain evs a where "checkAlphaLock inp s' = s'\<lparr>alphaLock := a, trace := trace s' @ probe inp @ evs\<rparr>"
    using checkAlphaLock_eq by blast
  then have "take 2 (added s' (checkAlphaLock inp s')) =
     [PinMode (rowPins ! (ROWS - 1)) INPUT, PinMode alphaLockRowPin OUTPUT]"
    by (simp add: probe_def)
  with run_safe [OF setup_ready n] show ?thesis
    by (simp add: scan_row_eq)
qed

theorem single_row_driven_witness:
  "length (driven (take 40 (trace (run [one_key 0 6] (setup_ino init))))) \<le> 1"
  using single_row_driven [of init 40 "[one_key 0 6]"]
  by (simp add: setup_trace init_def)

subsection \<open>A cell within its cycle, and the order of a cycle\<close>

lemma modifierPressed_exact:
  "modifierPressed inp s = (detected inp, s\<lparr>trace := trace s @ modifier_reads inp\<rparr>)"
  by (simp add: modifierPressed_def detected_def first_asserted_def modifier_reads_def prims)

lemma checkAlphaLock_exact:
  "checkAlphaLock inp s =
     s\<lparr>alphaLock := lock_next inp s, trace := trace s @ probe inp @ lock_events inp s\<rparr>"
  by (cases "lock_in inp"; cases "alphaLock s = 0")
     (simp_all add: checkAlphaLock_def disable_lastrow_def prims probe_def lock_events_def
        lock_next_def)

lemma cycle_start_exact:
  "cycle_start inp s =
     (detected inp,
      s\<lparr>alphaLock := lock_next inp s,
        trace := trace s @ [DigitalRead enablePin (enable_in inp)] @ modifier_reads inp @
          probe inp @ lock_events inp s\<rparr>)"
  by (simp add: cycle_start_def modifierPressed_exact checkAlphaLock_exact prims
      lock_next_def lock_events_def)

lemma loop_cycle_start:
  "enable_in inp = HIGH \<Longrightarrow>
   loop inp s = rows_loop inp (detected inp) (ROWS - 1) 0 (snd (cycle_start inp s))"
  by (simp add: loop_def cycle_start_def modifierPressed_exact Let_def)

lemma cols_loop_split:
  "j \<le> columns ! i \<Longrightarrow>
   cols_loop inp modifier i 0 s =
     cols_loop inp modifier i j (fold (\<lambda>c. column_body inp modifier i c) [0..<j] s)"
proof (induction j)
  case 0
  then show ?case by simp
next
  case (Suc j)
  then have "cols_loop inp modifier i 0 s =
     cols_loop inp modifier i j (fold (\<lambda>c. column_body inp modifier i c) [0..<j] s)"
    by simp
  also have "\<dots> = cols_loop inp modifier i (Suc j)
      (column_body inp modifier i j (fold (\<lambda>c. column_body inp modifier i c) [0..<j] s))"
    using Suc.prems by (subst cols_loop.simps) simp
  finally show ?case by simp
qed

lemma rows_loop_split:
  "i \<le> ROWS \<Longrightarrow>
   rows_loop inp modifier (ROWS - 1) 0 s =
     rows_loop inp modifier (if i = 0 then ROWS - 1 else i - 1) i
       (fold (row_pass inp modifier) [0..<i] s)"
proof (induction i)
  case 0
  then show ?case by simp
next
  case (Suc i)
  let ?t = "fold (row_pass inp modifier) [0..<i] s"
  from Suc have "rows_loop inp modifier (ROWS - 1) 0 s =
     rows_loop inp modifier (if i = 0 then ROWS - 1 else i - 1) i ?t"
    by simp
  also have "\<dots> = rows_loop inp modifier i (Suc i) (row_pass inp modifier i ?t)"
    using Suc.prems by (subst rows_loop.simps) (simp add: row_pass_def)
  finally show ?case by simp
qed

lemma loop_through_cell:
  assumes "enable_in inp = HIGH" and "i < ROWS" and "j < columns ! i"
  shows "loop inp s =
     rows_loop inp (detected inp) i (Suc i)
       (cols_loop inp (detected inp) i (Suc j)
         (column_body inp (detected inp) i j (reach inp s i j)))"
proof -
  let ?m = "detected inp"
  let ?s2 = "snd (cycle_start inp s)"
  let ?t = "fold (row_pass inp ?m) [0..<i] ?s2"
  let ?u = "scan_row (if i = 0 then ROWS - 1 else i - 1) i ?t"
  have r: "reach inp s i j = fold (\<lambda>c. column_body inp ?m i c) [0..<j] ?u"
    by (simp add: reach_def cycle_start_exact)
  have "loop inp s = rows_loop inp ?m (if i = 0 then ROWS - 1 else i - 1) i ?t"
    using assms(2) by (simp only: loop_cycle_start [OF assms(1)] rows_loop_split [of i] less_imp_le)
  also have "\<dots> = rows_loop inp ?m i (Suc i) (cols_loop inp ?m i 0 ?u)"
    using assms(2) by (subst rows_loop.simps) simp
  also have "cols_loop inp ?m i 0 ?u = cols_loop inp ?m i j (reach inp s i j)"
    unfolding r using assms(3) by (intro cols_loop_split) simp
  also have "\<dots> = cols_loop inp ?m i (Suc j) (column_body inp ?m i j (reach inp s i j))"
    using assms(3) by (subst cols_loop.simps) simp
  finally show ?thesis .
qed

lemma fold_column_body_added:
  "\<exists>evs. trace (fold (\<lambda>c. column_body inp modifier i c) cs s) = trace s @ evs"
proof (induction cs arbitrary: s)
  case Nil
  then show ?case by simp
next
  case (Cons c cs)
  obtain a where a: "trace (column_body inp modifier i c s) = trace s @ a"
    using column_body_added by blast
  from Cons [of "column_body inp modifier i c s"]
  obtain b where "trace (fold (\<lambda>c. column_body inp modifier i c) cs
      (column_body inp modifier i c s)) = trace (column_body inp modifier i c s) @ b"
    by blast
  with a have "trace (fold (\<lambda>c. column_body inp modifier i c) (c # cs) s) = trace s @ (a @ b)"
    by simp
  then show ?case by (rule exI)
qed

lemma row_pass_added: "\<exists>evs. trace (row_pass inp modifier r s) = trace s @ evs"
proof -
  obtain a where "trace (row_pass inp modifier r s) =
      trace (scan_row (if r = 0 then ROWS - 1 else r - 1) r s) @ a"
    unfolding row_pass_def using cols_loop_added by blast
  then have "trace (row_pass inp modifier r s) =
      trace s @ ([PinMode (rowPins ! (if r = 0 then ROWS - 1 else r - 1)) INPUT,
        PinMode (rowPins ! r) OUTPUT, DigitalWrite (rowPins ! r) LOW] @ a)"
    by (simp add: scan_row_eq)
  then show ?thesis by (rule exI)
qed

lemma fold_row_pass_added:
  "\<exists>evs. trace (fold (row_pass inp modifier) rs s) = trace s @ evs"
proof (induction rs arbitrary: s)
  case Nil
  then show ?case by simp
next
  case (Cons r rs)
  obtain a where a: "trace (row_pass inp modifier r s) = trace s @ a"
    using row_pass_added by blast
  from Cons [of "row_pass inp modifier r s"]
  obtain b where "trace (fold (row_pass inp modifier) rs (row_pass inp modifier r s)) =
      trace (row_pass inp modifier r s) @ b"
    by blast
  with a have "trace (fold (row_pass inp modifier) (r # rs) s) = trace s @ (a @ b)"
    by simp
  then show ?case by (rule exI)
qed

lemma reach_added: "\<exists>pre. trace (reach inp s i j) = trace s @ pre"
proof -
  let ?m = "detected inp"
  let ?s2 = "snd (cycle_start inp s)"
  let ?t = "fold (row_pass inp ?m) [0..<i] ?s2"
  let ?u = "scan_row (if i = 0 then ROWS - 1 else i - 1) i ?t"
  have r: "reach inp s i j = fold (\<lambda>c. column_body inp ?m i c) [0..<j] ?u"
    by (simp add: reach_def cycle_start_exact)
  obtain a where a: "trace ?s2 = trace s @ a"
    by (simp add: cycle_start_exact)
  obtain b where b: "trace ?t = trace ?s2 @ b"
    using fold_row_pass_added by blast
  obtain c where c: "trace (reach inp s i j) = trace ?u @ c"
    unfolding r using fold_column_body_added by blast
  have "trace (reach inp s i j) =
     trace s @ (a @ b @ [PinMode (rowPins ! (if i = 0 then ROWS - 1 else i - 1)) INPUT,
        PinMode (rowPins ! i) OUTPUT, DigitalWrite (rowPins ! i) LOW] @ c)"
    unfolding c by (simp add: scan_row_eq a b)
  then show ?thesis by (rule exI)
qed

text \<open>
  Claim C1. In an enabled cycle, \<open>loop\<close> processes every scanned cell with the modifier
  that \<open>modifierPressed\<close> returned at the start of the cycle. When the cell reads asserted
  and, as the pass reaches it, its key differs from \<open>previousKey\<close> or \<open>idlecount\<close> is
  at least 10000, the calls of the cycle contain, at that point, the read of the column,
  the hold of the detected modifier (if any), the press of the key, a hold of
  \<open>KBD_DELAY\<close> and \<open>releaseAll\<close>; right after them \<open>count\<close> and \<open>idlecount\<close>
  are 0 and \<open>previousKey\<close> is the key.
\<close>

theorem fresh_press_cycle:
  assumes "enable_in inp = HIGH" and "i < ROWS" and "j < columns ! i"
    and "cell_in inp i j = LOW"
    and "keyat i j \<noteq> previousKey (reach inp s i j) \<or> idlecount (reach inp s i j) \<ge> 10000"
  shows "loop inp s =
           rows_loop inp (detected inp) i (Suc i)
             (cols_loop inp (detected inp) i (Suc j)
               (column_body inp (detected inp) i j (reach inp s i j))) \<and>
         detected inp = fst (modifierPressed inp (digitalRead enablePin (enable_in inp) s)) \<and>
         (\<exists>pre post. trace (reach inp s i j) = trace s @ pre \<and>
            added s (loop inp s) =
              pre @ [DigitalRead (colPins ! j) LOW] @ modifier_hold (detected inp) @
              [Press (Code (keyat i j)), Delay KBD_DELAY,
               Println ''Different key or idlecount timeout'', ReleaseAll] @ post) \<and>
         sink (added (reach inp s i j) (column_body inp (detected inp) i j (reach inp s i j))) =
           modifier_hold (detected inp) @
             [Press (Code (keyat i j)), Delay KBD_DELAY, ReleaseAll] \<and>
         count (column_body inp (detected inp) i j (reach inp s i j)) = 0 \<and>
         idlecount (column_body inp (detected inp) i j (reach inp s i j)) = 0 \<and>
         previousKey (column_body inp (detected inp) i j (reach inp s i j)) = keyat i j"
proof -
  let ?m = "detected inp"
  let ?sc = "reach inp s i j"
  let ?sc' = "column_body inp ?m i j ?sc"
  let ?ev = "[DigitalRead (colPins ! j) LOW] @ modifier_hold ?m @
              [Press (Code (keyat i j)), Delay KBD_DELAY,
               Println ''Different key or idlecount timeout'', ReleaseAll]"
  from assms(4,5) have low: "\<not> cell_in inp i j" and fr: "fresh i j ?sc"
    by (simp_all add: fresh_def)
  note cb = column_body_fresh [OF low fr, of ?m]
  have through: "loop inp s =
      rows_loop inp ?m i (Suc i) (cols_loop inp ?m i (Suc j) ?sc')"
    using assms(1-3) by (rule loop_through_cell)
  have det: "?m = fst (modifierPressed inp (digitalRead enablePin (enable_in inp) s))"
    by (simp add: modifierPressed_exact)
  obtain pre where pre: "trace ?sc = trace s @ pre"
    using reach_added by blast
  have tr': "trace ?sc' = trace ?sc @ ?ev"
    unfolding cb by simp
  obtain a where a: "trace (cols_loop inp ?m i (Suc j) ?sc') = trace ?sc' @ a"
    using cols_loop_added by blast
  obtain b where b: "trace (rows_loop inp ?m i (Suc i) (cols_loop inp ?m i (Suc j) ?sc')) =
      trace (cols_loop inp ?m i (Suc j) ?sc') @ b"
    using rows_loop_added by blast
  have "trace (loop inp s) = trace s @ (pre @ ?ev @ (a @ b))"
    unfolding through b a tr' pre by simp
  then have "added s (loop inp s) = pre @ ?ev @ (a @ b)"
    by (rule added_append)
  with pre have ex: "\<exists>pre post. trace ?sc = trace s @ pre \<and>
      added s (loop inp s) = pre @ ?ev @ post"
    by blast
  have cell: "sink (added ?sc ?sc') =
           modifier_hold ?m @ [Press (Code (keyat i j)), Delay KBD_DELAY, ReleaseAll]"
    "count ?sc' = 0" "idlecount ?sc' = 0" "previousKey ?sc' = keyat i j"
    unfolding cb by simp_all
  from through det ex cell show ?thesis by simp
qed

lemma fold_idle_previousKey:
  "\<forall>c\<in>set cs. cell_in inp i c \<Longrightarrow>
   previousKey (fold (\<lambda>c. column_body inp modifier i c) cs s) = previousKey s"
  by (induction cs arbitrary: s) (simp_all add: column_body_idle)

theorem fresh_press_cycle_witness:
  "detected (shift_key 0 6) = SHIFT \<and>
   sink (added (reach (shift_key 0 6) (setup_ino init) 0 6)
          (column_body (shift_key 0 6) (detected (shift_key 0 6)) 0 6
            (reach (shift_key 0 6) (setup_ino init) 0 6))) =
     [Press KEY_LEFT_SHIFT, Press (Code 113), Delay 150, ReleaseAll] \<and>
   (\<exists>pre post. added (setup_ino init) (loop (shift_key 0 6) (setup_ino init)) =
      pre @ [DigitalRead 11 False, Press KEY_LEFT_SHIFT, Press (Code 113), Delay 150,
             Println ''Different key or idlecount timeout'', ReleaseAll] @ post) \<and>
   count (column_body (shift_key 0 6) (detected (shift_key 0 6)) 0 6
            (reach (shift_key 0 6) (setup_ino init) 0 6)) = 0 \<and>
   idlecount (column_body (shift_key 0 6) (detected (shift_key 0 6)) 0 6
            (reach (shift_key 0 6) (setup_ino init) 0 6)) = 0 \<and>
   previousKey (column_body (shift_key 0 6) (detected (shift_key 0 6)) 0 6
            (reach (shift_key 0 6) (setup_ino init) 0 6)) = 113"
proof -
  let ?inp = "shift_key 0 6"
  let ?s = "setup_ino init"
  have en: "enable_in ?inp = HIGH" and low: "cell_in ?inp 0 6 = LOW"
    by (simp_all add: shift_key_def)
  have det: "detected ?inp = SHIFT"
    by (simp add: detected_def first_asserted_def shift_key_def)
  have key: "keyat 0 6 = 113"
    by (simp add: keyat_def keys_def)
  have col: "colPins ! 6 = 11"
    by (simp add: colPins_def)
  have "\<forall>c\<in>set [0..<6]. cell_in ?inp 0 c"
    by (simp add: shift_key_def)
  then have "previousKey (reach ?inp ?s 0 6) = 0"
    by (simp add: reach_def cycle_start_exact fold_idle_previousKey scan_row_eq
        setup_ino_eq init_def)
  then have fr: "keyat 0 6 \<noteq> previousKey (reach ?inp ?s 0 6) \<or>
      idlecount (reach ?inp ?s 0 6) \<ge> 10000"
    by (simp add: key)
  have r: "(0::nat) < ROWS" and c: "6 < columns ! 0"
    by (simp_all add: columns_def)
  note th = fresh_press_cycle [OF en r c low fr]
  from th obtain pre post where
    "added ?s (loop ?inp ?s) =
       pre @ [DigitalRead (colPins ! 6) LOW] @ modifier_hold (detected ?inp) @
       [Press (Code (keyat 0 6)), Delay KBD_DELAY,
        Println ''Different key or idlecount timeout'', ReleaseAll] @ post"
    by blast
  then have "added ?s (loop ?inp ?s) =
      pre @ [DigitalRead 11 False, Press KEY_LEFT_SHIFT, Press (Code 113), Delay 150,
             Println ''Different key or idlecount timeout'', ReleaseAll] @ post"
    by (simp add: det key col modifier_hold_def)
  then have ex: "\<exists>pre post. added ?s (loop ?inp ?s) =
      pre @ [DigitalRead 11 False, Press KEY_LEFT_SHIFT, Press (Code 113), Delay 150,
             Println ''Different key or idlecount timeout'', ReleaseAll] @ post"
    by blast
  from th have cell:
    "sink (added (reach ?inp ?s 0 6) (column_body ?inp (detected ?inp) 0 6 (reach ?inp ?s 0 6))) =
       modifier_hold (detected ?inp) @ [Press (Code (keyat 0 6)), Delay KBD_DELAY, ReleaseAll]"
    "count (column_body ?inp (detected ?inp) 0 6 (reach ?inp ?s 0 6)) = 0"
    "idlecount (column_body ?inp (detected ?inp) 0 6 (reach ?inp ?s 0 6)) = 0"
    "previousKey (column_body ?inp (detected ?inp) 0 6 (reach ?inp ?s 0 6)) = keyat 0 6"
    by blast+
  from cell(1) have sk:
    "sink (added (reach ?inp ?s 0 6) (column_body ?inp (detected ?inp) 0 6 (reach ?inp ?s 0 6))) =
       [Press KEY_LEFT_SHIFT, Press (Code 113), Delay 150, ReleaseAll]"
    by (simp add: det key modifier_hold_def)
  from det sk ex cell(2,3) cell(4) [unfolded key] show ?thesis
    by (intro conjI)
qed

lemma modifier_reads_no_pinmode [simp]: "filter is_pinmode (modifier_reads inp) = []"
  by (simp add: modifier_reads_def)

lemma cycle_pins_last:
  "foldl step_mode m ([PinMode A0 INPUT, PinMode alphaLockRowPin OUTPUT,
            PinMode alphaLockRowPin INPUT_PULLUP] @ pins_from (ROWS - 1) 0) (rowPins ! (ROWS - 1)) =
   OUTPUT"
  unfolding pins_from_all by (simp add: rowPins_def)

lemma loop_parked:
  assumes "parked s"
  shows "parked (loop inp s)"
proof -
  from assms have rd: "ready s" and last: "pin_modes (trace s) (rowPins ! (ROWS - 1)) = OUTPUT"
    by (simp_all add: parked_def)
  obtain evs where evs: "trace (loop inp s) = trace s @ evs"
    "filter is_pinmode evs =
       (if enable_in inp = HIGH
        then [PinMode A0 INPUT, PinMode alphaLockRowPin OUTPUT,
              PinMode alphaLockRowPin INPUT_PULLUP] @ pins_from (ROWS - 1) 0
        else [])"
    using loop_pins by blast
  have pm: "pin_modes (trace (loop inp s)) =
      foldl step_mode (pin_modes (trace s)) (filter is_pinmode evs)"
    unfolding evs(1) by (simp add: pin_modes_append foldl_step_filter [of _ evs])
  have "pin_modes (trace (loop inp s)) (rowPins ! (ROWS - 1)) = OUTPUT"
  proof (cases "enable_in inp = HIGH")
    case True
    then show ?thesis
      unfolding pm evs(2) by (simp only: simp_thms if_True cycle_pins_last)
  next
    case False
    with last show ?thesis
      unfolding pm evs(2) by simp
  qed
  with loop_safe(1) [OF rd, of inp] show ?thesis
    by (simp add: parked_def)
qed

lemma run_parked: "parked s \<Longrightarrow> parked (run ins s)"
  by (induction ins arbitrary: s) (simp_all add: loop_parked)

lemma setup_parked: "parked (setup_ino s)"
  using setup_ready [of s]
  by (simp add: parked_def setup_trace pin_modes_append rowPins_def)

lemma parked_driven:
  assumes "parked s" and "filter is_pinmode evs = []"
  shows "driven (trace s @ evs) = [rowPins ! (ROWS - 1)]"
proof -
  have "pin_modes (trace s @ evs) = pin_modes (trace s)"
    using assms(2) by (simp add: pin_modes_append foldl_step_filter [of _ evs])
  with assms(1) show ?thesis
    by (simp add: parked_def ready_def last_only_def driven_def row_lines_def rowPins_def)
qed

text \<open>
  Claim C3, amended. Before every cycle of a run that starts with \<open>setup\<close>, the last row
  is the one driven row line: \<open>setup\<close> or the previous pass left it active. The calls of
  an enabled cycle are, in this order: the read of the enable pin; the reads of the
  modifier columns, during which the last row is still driven; the lock probe, which
  returns the last row to input, drives the lock line low, samples column 7 and releases
  the lock line; the tap if there is one; and then the matrix pass, whose direction
  changes are those of rows 0 to 5 in order. So the lock line is activated before each row
  of that cycle's pass is.
\<close>

theorem lock_probe_before_pass:
  assumes "enable_in inp = HIGH"
  shows "driven (trace (run ins (setup_ino s0))) = [rowPins ! (ROWS - 1)] \<and>
         driven (trace (run ins (setup_ino s0)) @ [DigitalRead enablePin HIGH] @ modifier_reads inp) =
           [rowPins ! (ROWS - 1)] \<and>
         loop inp (run ins (setup_ino s0)) =
           rows_loop inp (detected inp) (ROWS - 1) 0
             ((run ins (setup_ino s0))
                \<lparr>alphaLock := lock_next inp (run ins (setup_ino s0)),
                 trace := trace (run ins (setup_ino s0)) @ [DigitalRead enablePin HIGH] @
                   modifier_reads inp @ probe inp @ lock_events inp (run ins (setup_ino s0))\<rparr>) \<and>
         (\<exists>R. added (run ins (setup_ino s0)) (loop inp (run ins (setup_ino s0))) =
                [DigitalRead enablePin HIGH] @ modifier_reads inp @ probe inp @
                lock_events inp (run ins (setup_ino s0)) @ R \<and>
              filter is_pinmode R = pins_from (ROWS - 1) 0) \<and>
         probe_before_pass (added (run ins (setup_ino s0)) (loop inp (run ins (setup_ino s0))))"
proof -
  let ?sb = "run ins (setup_ino s0)"
  let ?s2 = "?sb\<lparr>alphaLock := lock_next inp ?sb,
                 trace := trace ?sb @ [DigitalRead enablePin HIGH] @
                   modifier_reads inp @ probe inp @ lock_events inp ?sb\<rparr>"
  have pk: "parked ?sb"
    by (rule run_parked) (rule setup_parked)
  have d0: "driven (trace ?sb) = [rowPins ! (ROWS - 1)]"
    using parked_driven [OF pk, of "[]"] by simp
  have d1: "driven (trace ?sb @ [DigitalRead enablePin HIGH] @ modifier_reads inp) =
           [rowPins ! (ROWS - 1)]"
    by (rule parked_driven [OF pk]) simp
  have eq: "loop inp ?sb = rows_loop inp (detected inp) (ROWS - 1) 0 ?s2"
    using assms by (simp add: loop_cycle_start cycle_start_exact)
  obtain R where R: "filter is_pinmode R = pins_from (ROWS - 1) 0"
    "trace (rows_loop inp (detected inp) (ROWS - 1) 0 ?s2) = trace ?s2 @ R"
    using rows_loop_added by blast
  have "trace (loop inp ?sb) = trace ?sb @ ([DigitalRead enablePin HIGH] @ modifier_reads inp @
      probe inp @ lock_events inp ?sb @ R)"
    unfolding eq R(2) by simp
  then have "added ?sb (loop inp ?sb) = [DigitalRead enablePin HIGH] @ modifier_reads inp @
      probe inp @ lock_events inp ?sb @ R"
    by (rule added_append)
  with R(1) have ex: "\<exists>R. added ?sb (loop inp ?sb) =
                [DigitalRead enablePin HIGH] @ modifier_reads inp @ probe inp @
                lock_events inp ?sb @ R \<and>
              filter is_pinmode R = pins_from (ROWS - 1) 0"
    by blast
  have pb: "probe_before_pass (added ?sb (loop inp ?sb))"
    unfolding probe_before_pass_def list_all_iff
    using probe_precedes_rows [OF assms, of _ ?sb] by simp
  from d0 d1 eq ex pb show ?thesis by (intro conjI)
qed

theorem lock_probe_before_pass_witness:
  "driven (trace (run [one_key 0 6] (setup_ino init))) = [rowPins ! (ROWS - 1)] \<and>
   modifier_reads (no_key (\<lambda>c. HIGH) HIGH) =
     [DigitalRead 4 True, DigitalRead 11 True, DigitalRead 8 True] \<and>
   (\<exists>R. added (run [one_key 0 6] (setup_ino init))
            (loop (no_key (\<lambda>c. HIGH) HIGH) (run [one_key 0 6] (setup_ino init))) =
          [DigitalRead enablePin HIGH] @ modifier_reads (no_key (\<lambda>c. HIGH) HIGH) @
          probe (no_key (\<lambda>c. HIGH) HIGH) @
          lock_events (no_key (\<lambda>c. HIGH) HIGH) (run [one_key 0 6] (setup_ino init)) @ R \<and>
        filter is_pinmode R = pins_from (ROWS - 1) 0) \<and>
   probe_before_pass
     (added (run [one_key 0 6] (setup_ino init))
        (loop (no_key (\<lambda>c. HIGH) HIGH) (run [one_key 0 6] (setup_ino init))))"
proof -
  have en: "enable_in (no_key (\<lambda>c. HIGH) HIGH) = HIGH"
    by (simp add: no_key_def)
  have mr: "modifier_reads (no_key (\<lambda>c. HIGH) HIGH) =
     [DigitalRead 4 True, DigitalRead 11 True, DigitalRead 8 True]"
    by (simp add: modifier_reads_def no_key_def colPins_def)
  note th = lock_probe_before_pass [OF en, of "[one_key 0 6]" init]
  from th have a: "driven (trace (run [one_key 0 6] (setup_ino init))) = [rowPins ! (ROWS - 1)]"
    by blast
  from th have b: "\<exists>R. added (run [one_key 0 6] (setup_ino init))
            (loop (no_key (\<lambda>c. HIGH) HIGH) (run [one_key 0 6] (setup_ino init))) =
          [DigitalRead enablePin HIGH] @ modifier_reads (no_key (\<lambda>c. HIGH) HIGH) @
          probe (no_key (\<lambda>c. HIGH) HIGH) @
          lock_events (no_key (\<lambda>c. HIGH) HIGH) (run [one_key 0 6] (setup_ino init)) @ R \<and>
        filter is_pinmode R = pins_from (ROWS - 1) 0"
    by blast
  from th have c: "probe_before_pass
     (added (run [one_key 0 6] (setup_ino init))
        (loop (no_key (\<lambda>c. HIGH) HIGH) (run [one_key 0 6] (setup_ino init))))"
    by blast
  from a mr b c show ?thesis by (intro conjI)
qed

end
